theory Spec2Isabelle
  imports Main "HOL-Library.Word" "HOL-Library.AList" "HOL-Library.Multiset"
begin

section \<open>Shared vocabulary\<close>

type_synonym ContactID = int
type_synonym OrgID = int
type_synonym GroupID = int
type_synonym BroadcastID = int
type_synonym URN = string

text \<open>
  Errors are values. \<open>Wrapf e msg\<close> is \<open>errors.Wrapf(e, msg)\<close>; a Go \<open>error\<close> result is an
  \<open>error option\<close> with \<open>None\<close> for \<open>nil\<close>.
\<close>

datatype error = Errorf string | Wrapf error string

section \<open>hooks: the contact language change hook\<close>

text \<open>
  \<open>models.Session\<close> is used through \<open>ContactID()\<close> only. The Go map
  \<open>map[*models.Session][]interface{}\<close> is an association list, given in the order in which
  \<open>range\<close> visits it. A value of type \<open>interface{}\<close> has a dynamic type: it either is a
  \<open>*events.ContactLanguageChangedEvent\<close> or something else.
\<close>

datatype Session = Session (SessionID: int) (ContactID: ContactID)

datatype event =
    ContactLanguageChangedEvent (Language: string)
  | OtherEvent string

record languageUpdate =
  lu_ContactID :: ContactID
  lu_Language :: string

datatype panic = IndexOutOfRange | InterfaceConversion

definition updateContactLanguageSQL :: string where
  "updateContactLanguageSQL =
     ''UPDATE contacts_contact c SET language = r.language, modified_on = NOW() FROM (VALUES(:id, :language)) AS r(id, language) WHERE c.id = r.id::int''"

text \<open>
  The loop of \<open>Apply\<close>: \<open>e[len(e)-1]\<close> panics on an empty slice, the type assertion
  without the comma-ok form panics on any other dynamic type.
\<close>

fun Apply_updates ::
  "(Session \<times> event list) list \<Rightarrow> languageUpdate list \<Rightarrow> panic + languageUpdate list" where
  "Apply_updates [] updates = Inr updates"
| "Apply_updates ((s, e) # rest) updates =
     (if int (length e) - 1 < 0 then Inl IndexOutOfRange
      else (case e ! (length e - 1) of
              ContactLanguageChangedEvent l \<Rightarrow>
                Apply_updates rest
                  (updates @ [\<lparr>lu_ContactID = ContactID s, lu_Language = l\<rparr>])
            | OtherEvent _ \<Rightarrow> Inl InterfaceConversion))"

text \<open>
  \<open>models.BulkSQL\<close> is a collaborator: it is a parameter, and the result of \<open>Apply\<close>
  records the rows handed to it next to the error it returned.
\<close>

definition Apply ::
  "(string \<Rightarrow> string \<Rightarrow> languageUpdate list \<Rightarrow> error option) \<Rightarrow>
   (Session \<times> event list) list \<Rightarrow> panic + (languageUpdate list \<times> error option)" where
  "Apply BulkSQL sessions =
     (case Apply_updates sessions [] of
        Inl p \<Rightarrow> Inl p
      | Inr updates \<Rightarrow>
          Inr (updates, BulkSQL ''updating contact language'' updateContactLanguageSQL updates))"

definition isLanguageChange :: "event \<Rightarrow> bool" where
  "isLanguageChange ev = (case ev of ContactLanguageChangedEvent _ \<Rightarrow> True | OtherEvent _ \<Rightarrow> False)"

text \<open>The row the hook is meant to write for one entry of the map: last event wins.\<close>

definition lastWins :: "Session \<times> event list \<Rightarrow> languageUpdate" where
  "lastWins se = \<lparr>lu_ContactID = ContactID (fst se), lu_Language = Language (last (snd se))\<rparr>"

text \<open>The precondition of \<open>Apply\<close> on one entry of the map.\<close>

definition applySafe :: "Session \<times> event list \<Rightarrow> bool" where
  "applySafe se = (snd se \<noteq> [] \<and> isLanguageChange (last (snd se)))"

section \<open>broadcasts: the data the worker handles\<close>

text \<open>
  Modelled from the spec: \<open>models.Broadcast\<close> is declared outside the sources at hand.
  The spec's data model makes it a tenant-scoped mass-send definition with an explicit
  contact id list, an explicit group id list and an explicit address list; the worker
  reads them through \<open>ContactIDs()\<close>, \<open>GroupIDs()\<close>, \<open>URNs()\<close> and \<open>OrgID()\<close>.
\<close>

record Broadcast =
  b_BroadcastID :: BroadcastID
  b_OrgID :: OrgID
  b_ContactIDs :: "ContactID list"
  b_GroupIDs :: "GroupID list"
  b_URNs :: "URN list"

text \<open>
  Modelled from the spec: \<open>models.BroadcastBatch\<close> is declared outside the sources at
  hand. The spec's data model makes it a bounded list of contact ids, optionally a map from
  contact id to address (only on the terminal batch), and an is-last flag; the worker reads
  it through \<open>IsLast()\<close>, \<open>BroadcastID()\<close> and \<open>OrgID()\<close>.
\<close>

record BroadcastBatch =
  bb_BroadcastID :: BroadcastID
  bb_OrgID :: OrgID
  bb_ContactIDs :: "ContactID list"
  bb_IsLast :: bool
  bb_URNs :: "(ContactID \<times> URN) list"

text \<open>
  Modelled from the spec: \<open>Broadcast.CreateBatch\<close> is declared outside the sources at
  hand. It makes the batch of the given contact ids for the broadcast, a batch being a
  partition of the broadcast's recipients; the flag and the address map are set afterwards.
\<close>

definition CreateBatch :: "Broadcast \<Rightarrow> ContactID list \<Rightarrow> BroadcastBatch" where
  "CreateBatch bcast contacts =
     \<lparr>bb_BroadcastID = b_BroadcastID bcast, bb_OrgID = b_OrgID bcast,
      bb_ContactIDs = contacts, bb_IsLast = False, bb_URNs = []\<rparr>"

text \<open>
  Modelled from the spec: \<open>BroadcastBatch.SetIsLast\<close> is declared outside the sources at
  hand. It sets the is-last flag of the batch.
\<close>

definition SetIsLast :: "bool \<Rightarrow> BroadcastBatch \<Rightarrow> BroadcastBatch" where
  "SetIsLast v batch = batch\<lparr>bb_IsLast := v\<rparr>"

text \<open>
  Modelled from the spec: \<open>BroadcastBatch.SetURNs\<close> is declared outside the sources at
  hand. It attaches the map from contact id to address to the batch.
\<close>

definition SetURNs :: "(ContactID \<times> URN) list \<Rightarrow> BroadcastBatch \<Rightarrow> BroadcastBatch" where
  "SetURNs m batch = batch\<lparr>bb_URNs := m\<rparr>"

text \<open>Opaque values of the collaborators: org assets, session assets, created messages.\<close>

datatype OrgAssets = OrgAssets OrgID
datatype SessionAssets = SessionAssets OrgAssets
datatype Msg = Msg nat

datatype queue = BatchQueue | HandlerQueue
datatype taskType = queue_SendBroadcast | queue_SendBroadcastBatch
datatype priority = DefaultPriority

text \<open>One call of \<open>queue.AddTask\<close>, with the arguments the worker passes.\<close>

record task =
  t_queue :: queue
  t_type :: taskType
  t_org :: OrgID
  t_batch :: BroadcastBatch
  t_priority :: priority

text \<open>
  The collaborators of the worker, as the functions it calls. A call that returns
  \<open>(value, error)\<close> and whose value is only read after the error check is a sum;
  \<open>ContactIDsForGroupIDs\<close> keeps both components, because the worker reads the value
  whatever the error is. \<open>AddTask\<close> takes the number of calls made before it, so that the
  broker may refuse one task and accept the next. The two \<open>range\<close> fields fix the order in
  which Go happens to iterate over the worker's own maps: keys are visited by increasing
  rank, and every order of the keys is the order of some rank.
\<close>

record collaborators =
  ContactIDsForGroupIDs :: "GroupID list \<Rightarrow> ContactID list \<times> error option"
  GetOrgAssets :: "OrgID \<Rightarrow> error + OrgAssets"
  GetSessionAssets :: "OrgAssets \<Rightarrow> error + SessionAssets"
  ContactIDsFromURNs :: "OrgAssets \<Rightarrow> SessionAssets \<Rightarrow> URN list \<Rightarrow> error + (URN \<times> ContactID) list"
  AddTask :: "nat \<Rightarrow> task \<Rightarrow> error option"
  CreateBroadcastMessages :: "OrgAssets \<Rightarrow> SessionAssets \<Rightarrow> BroadcastBatch \<Rightarrow> error + Msg list"
  QueueMessages :: "Msg list \<Rightarrow> error option"
  MarkBroadcastSent :: "BroadcastID \<Rightarrow> error option"
  rangeContactIDs :: "ContactID \<Rightarrow> nat"
  rangeRepeated :: "ContactID \<Rightarrow> nat"

section \<open>broadcasts: CreateBroadcastBatches\<close>

definition startBatchSize :: nat where
  "startBatchSize = 100"

text \<open>
  \<open>map[models.ContactID]bool\<close> only ever stores \<open>true\<close>: it is the list of its keys, free
  of duplicates. \<open>map[models.ContactID]urns.URN\<close> is an association list.
\<close>

definition setTrue :: "ContactID list \<Rightarrow> ContactID \<Rightarrow> ContactID list" where
  "setTrue m k = (if k \<in> set m then m else m @ [k])"

definition rangeKeys :: "(ContactID \<Rightarrow> nat) \<Rightarrow> ContactID list \<Rightarrow> ContactID list" where
  "rangeKeys rank ks = sort_key rank ks"

text \<open>The rank that visits the keys in a given order: the position of a key in it.\<close>

fun position :: "ContactID list \<Rightarrow> ContactID \<Rightarrow> nat" where
  "position [] k = 0"
| "position (x # xs) k = (if x = k then 0 else Suc (position xs k))"

text \<open>
  The loop over \<open>urnMap\<close>, on the triple \<open>(contactIDs, repeatedContacts, urnContacts)\<close>.
  \<open>urnMap\<close> comes from a collaborator as the list of its entries in iteration order.
\<close>

fun urnLoop ::
  "(URN \<times> ContactID) list \<Rightarrow>
   ContactID list \<times> (ContactID \<times> URN) list \<times> (ContactID \<times> URN) list \<Rightarrow>
   ContactID list \<times> (ContactID \<times> URN) list \<times> (ContactID \<times> URN) list" where
  "urnLoop [] st = st"
| "urnLoop ((u, cid) # rest) (contactIDs, repeatedContacts, urnContacts) =
     (if cid \<in> set contactIDs
      then urnLoop rest
             (removeAll cid contactIDs, AList.update cid u repeatedContacts,
              AList.update cid u urnContacts)
      else urnLoop rest (contactIDs, repeatedContacts, AList.update cid u urnContacts))"

text \<open>
  What the closure \<open>queueBatch\<close> reads and writes: the slice \<open>contacts\<close>, the variable
  \<open>err\<close> of the enclosing function, the calls of \<open>AddTask\<close> made so far and the lines
  logged at error level.
\<close>

record qstate =
  qs_contacts :: "ContactID list"
  qs_err :: "error option"
  qs_tasks :: "task list"
  qs_logs :: "(error \<times> string) list"

definition queueBatch ::
  "collaborators \<Rightarrow> Broadcast \<Rightarrow> queue \<Rightarrow> (ContactID \<times> URN) list \<Rightarrow>
   (ContactID \<times> URN) list \<Rightarrow> bool \<Rightarrow> qstate \<Rightarrow> qstate" where
  "queueBatch env bcast q repeatedContacts urnContacts isLast st =
     (let contacts =
            (if isLast
             then qs_contacts st @ rangeKeys (rangeRepeated env) (map fst repeatedContacts)
             else qs_contacts st);
          batch = CreateBatch bcast contacts;
          batch = (if isLast then SetURNs urnContacts (SetIsLast True batch) else batch);
          t = \<lparr>t_queue = q, t_type = queue_SendBroadcastBatch, t_org = b_OrgID bcast,
               t_batch = batch, t_priority = DefaultPriority\<rparr>;
          err = AddTask env (length (qs_tasks st)) t
      in \<lparr>qs_contacts = [],
          qs_err = err,
          qs_tasks = qs_tasks st @ [t],
          qs_logs = qs_logs st @
            (case err of None \<Rightarrow> []
             | Some e \<Rightarrow> [(e, ''error while queuing broadcast batch'')])\<rparr>)"

fun batchLoop :: "(bool \<Rightarrow> qstate \<Rightarrow> qstate) \<Rightarrow> ContactID list \<Rightarrow> qstate \<Rightarrow> qstate" where
  "batchLoop qb [] st = st"
| "batchLoop qb (c # cs) st =
     (let st1 = (if length (qs_contacts st) = startBatchSize then qb False st else st)
      in batchLoop qb cs (st1\<lparr>qs_contacts := qs_contacts st1 @ [c]\<rparr>))"

text \<open>
  The result of the worker: the error it returns, the calls of \<open>AddTask\<close> it made, in
  order, and what it logged.
\<close>

record createResult =
  cr_ret :: "error option"
  cr_tasks :: "task list"
  cr_logs :: "(error \<times> string) list"

definition CreateBroadcastBatches :: "collaborators \<Rightarrow> Broadcast \<Rightarrow> createResult" where
  "CreateBroadcastBatches env bcast =
     (let contactIDs = foldl setTrue [] (b_ContactIDs bcast);
          (groupContactIDs, err) = ContactIDsForGroupIDs env (b_GroupIDs bcast);
          contactIDs = foldl setTrue contactIDs groupContactIDs
      in case GetOrgAssets env (b_OrgID bcast) of
           Inl err \<Rightarrow>
             \<lparr>cr_ret = Some (Wrapf err ''error getting org assets''), cr_tasks = [], cr_logs = []\<rparr>
         | Inr org \<Rightarrow>
          (case GetSessionAssets env org of
             Inl err \<Rightarrow>
               \<lparr>cr_ret = Some (Wrapf err ''error getting session assets''),
                cr_tasks = [], cr_logs = []\<rparr>
           | Inr sa \<Rightarrow>
            (case ContactIDsFromURNs env org sa (b_URNs bcast) of
               Inl err \<Rightarrow>
                 \<lparr>cr_ret = Some (Wrapf err ''error getting contact ids for urns''),
                  cr_tasks = [], cr_logs = []\<rparr>
             | Inr urnMap \<Rightarrow>
                (let q = (if length contactIDs \<le> 2 then HandlerQueue else BatchQueue);
                     (contactIDs, repeatedContacts, urnContacts) =
                        urnLoop urnMap (contactIDs, [], []);
                     qb = queueBatch env bcast q repeatedContacts urnContacts;
                     st = batchLoop qb (rangeKeys (rangeContactIDs env) contactIDs)
                            \<lparr>qs_contacts = [], qs_err = None, qs_tasks = [], qs_logs = []\<rparr>;
                     st = qb True st
                 in \<lparr>cr_ret = None, cr_tasks = qs_tasks st, cr_logs = qs_logs st\<rparr>))))"

section \<open>broadcasts: SendBroadcastBatch\<close>

text \<open>
  The effects of sending one batch, in the order in which they happen. The body runs
  first; the deferred calls run when it returns, last deferred first: the connection is
  closed if it was taken, then the broadcast is marked as sent if the batch is the last.
\<close>

datatype effect =
    QueueMessagesCall "Msg list"
  | ConnClose
  | MarkBroadcastSentCall BroadcastID
  | LogError error string

definition sendBody :: "collaborators \<Rightarrow> BroadcastBatch \<Rightarrow> error option \<times> effect list" where
  "sendBody env bcast =
     (case GetOrgAssets env (bb_OrgID bcast) of
        Inl err \<Rightarrow> (Some (Wrapf err ''error getting org assets''), [])
      | Inr org \<Rightarrow>
       (case GetSessionAssets env org of
          Inl err \<Rightarrow> (Some (Wrapf err ''error getting session assets''), [])
        | Inr sa \<Rightarrow>
         (case CreateBroadcastMessages env org sa bcast of
            Inl err \<Rightarrow> (Some (Wrapf err ''error creating broadcast messages''), [])
          | Inr msgs \<Rightarrow>
             (case QueueMessages env msgs of
                Some err \<Rightarrow>
                  (Some (Wrapf err ''error queuing broadcast messages''),
                   [QueueMessagesCall msgs, ConnClose])
              | None \<Rightarrow> (None, [QueueMessagesCall msgs, ConnClose])))))"

definition sendDeferred :: "collaborators \<Rightarrow> BroadcastBatch \<Rightarrow> effect list" where
  "sendDeferred env bcast =
     (if bb_IsLast bcast
      then MarkBroadcastSentCall (bb_BroadcastID bcast) #
             (case MarkBroadcastSent env (bb_BroadcastID bcast) of
                Some err \<Rightarrow> [LogError err ''error marking broadcast as sent'']
              | None \<Rightarrow> [])
      else [])"

definition SendBroadcastBatch ::
  "collaborators \<Rightarrow> BroadcastBatch \<Rightarrow> error option \<times> effect list" where
  "SendBroadcastBatch env bcast =
     (let (ret, effects) = sendBody env bcast
      in (ret, effects @ sendDeferred env bcast))"

definition isMarkSent :: "effect \<Rightarrow> bool" where
  "isMarkSent e = (case e of MarkBroadcastSentCall _ \<Rightarrow> True | _ \<Rightarrow> False)"

section \<open>broadcasts: vocabulary for stating the fan-out\<close>

text \<open>
  The task of a batch that is not the last, and the task of the last batch, as
  \<open>queueBatch\<close> passes them to \<open>AddTask\<close>; the set of contact ids
  built from the explicit contacts and the group members, before the addresses are looked
  at; the queue chosen from it; and the log lines that the calls of \<open>AddTask\<close> leave
  behind.
\<close>

definition plainTask :: "Broadcast \<Rightarrow> queue \<Rightarrow> ContactID list \<Rightarrow> task" where
  "plainTask bcast q cs =
     \<lparr>t_queue = q, t_type = queue_SendBroadcastBatch, t_org = b_OrgID bcast,
      t_batch = CreateBatch bcast cs, t_priority = DefaultPriority\<rparr>"

definition lastTask ::
  "Broadcast \<Rightarrow> queue \<Rightarrow> ContactID list \<Rightarrow> (ContactID \<times> URN) list \<Rightarrow> task" where
  "lastTask bcast q cs urnContacts =
     \<lparr>t_queue = q, t_type = queue_SendBroadcastBatch, t_org = b_OrgID bcast,
      t_batch = SetURNs urnContacts (SetIsLast True (CreateBatch bcast cs)),
      t_priority = DefaultPriority\<rparr>"

definition explicitAndGroup :: "collaborators \<Rightarrow> Broadcast \<Rightarrow> ContactID list" where
  "explicitAndGroup env bcast =
     foldl setTrue (foldl setTrue [] (b_ContactIDs bcast))
       (fst (ContactIDsForGroupIDs env (b_GroupIDs bcast)))"

definition chosenQueue :: "collaborators \<Rightarrow> Broadcast \<Rightarrow> queue" where
  "chosenQueue env bcast =
     (if length (explicitAndGroup env bcast) \<le> 2 then HandlerQueue else BatchQueue)"

definition addTaskLogs :: "collaborators \<Rightarrow> task list \<Rightarrow> (error \<times> string) list" where
  "addTaskLogs env ts =
     concat (map (\<lambda>(i, t). case AddTask env i t of
                              None \<Rightarrow> []
                            | Some e \<Rightarrow> [(e, ''error while queuing broadcast batch'')])
                 (enumerate 0 ts))"

text \<open>
  The spec's total resolved recipient count: explicit contacts, group members and
  contacts resolved from addresses, each counted once.
\<close>

definition totalRecipients ::
  "ContactID list \<Rightarrow> ContactID list \<Rightarrow> (URN \<times> ContactID) list \<Rightarrow> nat" where
  "totalRecipients explicit members urnMap = card (set explicit \<union> set members \<union> snd ` set urnMap)"

text \<open>Collaborators that all succeed, for concrete runs.\<close>

definition okCollaborators :: collaborators where
  "okCollaborators =
     \<lparr>ContactIDsForGroupIDs = (\<lambda>gs. ([], None)),
      GetOrgAssets = (\<lambda>org. Inr (OrgAssets org)),
      GetSessionAssets = (\<lambda>oa. Inr (SessionAssets oa)),
      ContactIDsFromURNs = (\<lambda>oa sa us. Inr []),
      AddTask = (\<lambda>n t. None),
      CreateBroadcastMessages = (\<lambda>oa sa b. Inr (map (\<lambda>c. Msg (nat c)) (bb_ContactIDs b))),
      QueueMessages = (\<lambda>ms. None),
      MarkBroadcastSent = (\<lambda>b. None),
      rangeContactIDs = (\<lambda>c. nat c),
      rangeRepeated = (\<lambda>c. nat c)\<rparr>"

text \<open>Concrete broadcasts and collaborators used to run the worker.\<close>

definition contactsOneTwo :: Broadcast where
  "contactsOneTwo =
     \<lparr>b_BroadcastID = 9, b_OrgID = 1, b_ContactIDs = [1, 2], b_GroupIDs = [],
      b_URNs = [''tel:+250788000003'']\<rparr>"

definition contactsOneTwoThree :: Broadcast where
  "contactsOneTwoThree =
     \<lparr>b_BroadcastID = 9, b_OrgID = 1, b_ContactIDs = [1, 2, 3], b_GroupIDs = [],
      b_URNs = [''tel:+250788000003'']\<rparr>"

definition contacts250 :: Broadcast where
  "contacts250 =
     \<lparr>b_BroadcastID = 9, b_OrgID = 1, b_ContactIDs = map int [0..<250], b_GroupIDs = [],
      b_URNs = []\<rparr>"

definition resolvesContactThree :: collaborators where
  "resolvesContactThree =
     okCollaborators\<lparr>ContactIDsFromURNs := (\<lambda>oa sa us. Inr [(''tel:+250788000003'', 3)])\<rparr>"

definition brokerDown :: collaborators where
  "brokerDown = okCollaborators\<lparr>AddTask := (\<lambda>n t. Some (Errorf ''connection refused''))\<rparr>"

definition orgAssetsDown :: collaborators where
  "orgAssetsDown = okCollaborators\<lparr>GetOrgAssets := (\<lambda>org. Inl (Errorf ''no such org''))\<rparr>"

definition messagesDown :: collaborators where
  "messagesDown =
     okCollaborators\<lparr>CreateBroadcastMessages := (\<lambda>oa sa b. Inl (Errorf ''insert failed''))\<rparr>"

definition lastBatch :: BroadcastBatch where
  "lastBatch =
     \<lparr>bb_BroadcastID = 5, bb_OrgID = 1, bb_ContactIDs = [1, 2], bb_IsLast = True, bb_URNs = []\<rparr>"

section \<open>time: Go's integers, instants, durations, locations and the calendar\<close>

text \<open>
  Go's \<open>time\<close> package is not part of the repository; the operations the scheduler calls
  are written down here from the package's source, in the version the repository's
  Dockerfile builds with (Go 1.12). The package computes in 64-bit integers that wrap
  around: \<open>i64\<close> is the conversion of an integer to \<open>int64\<close>, \<open>u64\<close> the conversion to
  \<open>uint64\<close>, and \<open>quot\<close> and \<open>rem\<close> are Go's \<open>/\<close> and \<open>%\<close> on signed integers, which
  truncate towards zero. \<open>fitsInt64\<close> says that an integer is a value of \<open>int64\<close>.
\<close>

definition fitsInt64 :: "int \<Rightarrow> bool" where
  "fitsInt64 k = (- (2 ^ 63) \<le> k \<and> k < 2 ^ 63)"

definition i64 :: "int \<Rightarrow> int" where
  "i64 x = (x + 2 ^ 63) mod 2 ^ 64 - 2 ^ 63"

definition u64 :: "int \<Rightarrow> int" where
  "u64 x = x mod 2 ^ 64"

definition quot :: "int \<Rightarrow> int \<Rightarrow> int" where
  "quot a b = (if (a < 0) = (b < 0) then \<bar>a\<bar> div \<bar>b\<bar> else - (\<bar>a\<bar> div \<bar>b\<bar>))"

definition rem :: "int \<Rightarrow> int \<Rightarrow> int" where
  "rem a b = a - b * quot a b"

text \<open>
  A \<open>time.Duration\<close> is a signed 64-bit count of nanoseconds, and arithmetic on it wraps
  around as Go's does.
\<close>

type_synonym Duration = "64 word"

definition time_Nanosecond :: Duration where "time_Nanosecond = 1"

definition time_Second :: Duration where "time_Second = 1000000000"

definition time_Minute :: Duration where "time_Minute = 60 * time_Second"

definition time_Hour :: Duration where "time_Hour = 60 * time_Minute"

text \<open>
  The constants of the package. Seconds are counted from three epochs: the Unix epoch
  (1970), the internal epoch (January 1 of year 1) and the absolute epoch (January 1 of
  the year \<open>absoluteZeroYear\<close>), which is the first year of a 400-year cycle.
\<close>

definition secondsPerMinute :: int where "secondsPerMinute = 60"

definition secondsPerHour :: int where "secondsPerHour = 60 * secondsPerMinute"

definition secondsPerDay :: int where "secondsPerDay = 24 * secondsPerHour"

definition daysPer400Years :: int where "daysPer400Years = 365 * 400 + 97"

definition daysPer100Years :: int where "daysPer100Years = 365 * 100 + 24"

definition daysPer4Years :: int where "daysPer4Years = 365 * 4 + 1"

definition absoluteZeroYear :: int where "absoluteZeroYear = - 292277022399"

definition absoluteToInternal :: int where
  "absoluteToInternal = - 9223371966579724800"

definition internalToAbsolute :: int where "internalToAbsolute = - absoluteToInternal"

definition unixToInternal :: int where
  "unixToInternal = (1969 * 365 + 1969 div 4 - 1969 div 100 + 1969 div 400) * secondsPerDay"

definition internalToUnix :: int where "internalToUnix = - unixToInternal"

definition alpha :: int where "alpha = - (2 ^ 63)"

definition omega :: int where "omega = 2 ^ 63 - 1"

text \<open>
  Of a \<open>time.Location\<close> the package reads the UTC offset, in seconds east, that is in
  force at an instant, and the instants between which it is in force. A location is kept
  as the offset in force before its first transition and the list of its transitions, each
  with the instant it happens at (in Unix seconds) and the offset in force from then on,
  in increasing order of the instants, as the zone database has them. \<open>lookup\<close> returns
  the offset at an instant and the bounds of its period; the source finds the period by
  binary search, which on an increasing list is the period found here by going through
  the list. \<open>UTC\<close> and the zones of \<open>time.FixedZone\<close> have no transition.
\<close>

datatype Location = Location (firstOffset: int) (tx: "(int \<times> int) list")

definition UTC :: Location where "UTC = Location 0 []"

definition FixedZone :: "int \<Rightarrow> Location" where "FixedZone offset = Location offset []"

fun lookupTx :: "(int \<times> int) list \<Rightarrow> int \<Rightarrow> int \<times> int \<times> int" where
  "lookupTx [] s = (0, alpha, omega)"
| "lookupTx [(w, off)] s = (off, w, omega)"
| "lookupTx ((w, off) # (w', off') # rest) s =
     (if s < w' then (off, w, w') else lookupTx ((w', off') # rest) s)"

definition lookup :: "Location \<Rightarrow> int \<Rightarrow> int \<times> int \<times> int" where
  "lookup l s =
     (case tx l of
        [] \<Rightarrow> (firstOffset l, alpha, omega)
      | (w, off) # rest \<Rightarrow>
          if s < w then (firstOffset l, alpha, w) else lookupTx (tx l) s)"

text \<open>
  A \<open>time.Time\<close> without a monotonic clock reading, which is what the scheduler handles
  once it has called \<open>In\<close>: the seconds since the internal epoch (an \<open>int64\<close>, the field
  \<open>ext\<close>), the nanoseconds within the second, and the location. Here the two numbers are
  kept as one, the nanoseconds since the Unix epoch; \<open>sec\<close> and \<open>nsec\<close> read the fields
  of the source, and \<open>unixTime\<close> builds a time from Unix seconds and nanoseconds as the
  source does, wrapping the seconds into \<open>int64\<close>.
\<close>

datatype Time = Time (unixNano: int) (location: Location)

definition sec :: "Time \<Rightarrow> int" where
  "sec t = unixNano t div 1000000000 + unixToInternal"

definition nsec :: "Time \<Rightarrow> int" where
  "nsec t = unixNano t mod 1000000000"

definition unixSec :: "Time \<Rightarrow> int" where
  "unixSec t = i64 (sec t + internalToUnix)"

definition unixTime :: "int \<Rightarrow> int \<Rightarrow> Location \<Rightarrow> Time" where
  "unixTime s ns loc = Time ((i64 (s + unixToInternal) - unixToInternal) * 1000000000 + ns) loc"

text \<open>
  \<open>abs\<close>, here \<open>abs_t\<close>: the seconds since the absolute epoch on the wall clock of the
  time's location, a \<open>uint64\<close>. The fields of the wall clock are read from it.
\<close>

definition abs_t :: "Time \<Rightarrow> int" where
  "abs_t t =
     (let s = unixSec t;
          (offset, start, end) = lookup (location t) s;
          s = i64 (s + offset)
      in u64 (s + (unixToInternal + internalToAbsolute)))"

definition isLeap :: "int \<Rightarrow> bool" where
  "isLeap year = (year mod 4 = 0 \<and> (year mod 100 \<noteq> 0 \<or> year mod 400 = 0))"

definition daysBefore :: "int list" where
  "daysBefore = [0, 31, 59, 90, 120, 151, 181, 212, 243, 273, 304, 334, 365]"

text \<open>
  \<open>absDate\<close>, in two halves: the year and the day of the year are found by cutting off
  cycles of 400, 100, 4 and 1 years (\<open>n - n div 4\<close> is the source's \<open>n -= n >> 2\<close>), and
  the month and the day of the month from the day of the year.
\<close>

definition absYear :: "int \<Rightarrow> int \<times> int" where
  "absYear absv =
     (let d = absv div secondsPerDay;
          n = d div daysPer400Years; y = 400 * n; d = d - daysPer400Years * n;
          n = d div daysPer100Years; n = n - n div 4; y = y + 100 * n;
          d = d - daysPer100Years * n;
          n = d div daysPer4Years; y = y + 4 * n; d = d - daysPer4Years * n;
          n = d div 365; n = n - n div 4; y = y + n; d = d - 365 * n
      in (i64 (i64 y + absoluteZeroYear), d))"

definition monthDay :: "int \<Rightarrow> int \<Rightarrow> int \<times> int" where
  "monthDay year yday =
     (let day = yday
      in if isLeap year \<and> day = 31 + 29 - 1 then (2, 29)
         else
          (let day = (if isLeap year \<and> day > 31 + 29 - 1 then day - 1 else day);
               month = day div 31;
               end = daysBefore ! nat (month + 1);
               (month, begin) =
                  (if day \<ge> end then (month + 1, end) else (month, daysBefore ! nat month));
               month = month + 1;
               day = day - begin + 1
           in (month, day)))"

definition absDate :: "int \<Rightarrow> int \<times> int \<times> int \<times> int" where
  "absDate absv =
     (let (year, yday) = absYear absv;
          (month, day) = monthDay year yday
      in (year, month, day, yday))"

definition Year :: "Time \<Rightarrow> int" where
  "Year t = (case absDate (abs_t t) of (year, month, day, yday) \<Rightarrow> year)"

definition Month :: "Time \<Rightarrow> int" where
  "Month t = (case absDate (abs_t t) of (year, month, day, yday) \<Rightarrow> month)"

definition Day :: "Time \<Rightarrow> int" where
  "Day t = (case absDate (abs_t t) of (year, month, day, yday) \<Rightarrow> day)"

definition Hour :: "Time \<Rightarrow> int" where
  "Hour t = abs_t t mod secondsPerDay div secondsPerHour"

definition Minute :: "Time \<Rightarrow> int" where
  "Minute t = abs_t t mod secondsPerHour div secondsPerMinute"

definition Second :: "Time \<Rightarrow> int" where
  "Second t = abs_t t mod secondsPerMinute"

definition Nanosecond :: "Time \<Rightarrow> int" where
  "Nanosecond t = nsec t"

definition In :: "Time \<Rightarrow> Location \<Rightarrow> Time" where
  "In t loc = Time (unixNano t) loc"

text \<open>
  \<open>Add\<close> splits the duration into seconds and nanoseconds, carries the nanoseconds and
  adds the seconds to \<open>ext\<close> without a test for overflow. \<open>Truncate\<close> takes off the
  remainder of the time since the internal epoch by the duration.
\<close>

definition Add :: "Time \<Rightarrow> Duration \<Rightarrow> Time" where
  "Add t d =
     (let dsec = quot (sint d) 1000000000;
          ns = nsec t + rem (sint d) 1000000000;
          (dsec, ns) =
             (if ns \<ge> 1000000000 then (dsec + 1, ns - 1000000000)
              else if ns < 0 then (dsec - 1, ns + 1000000000)
              else (dsec, ns));
          ext = i64 (sec t + dsec)
      in Time ((ext - unixToInternal) * 1000000000 + ns) (location t))"

definition Truncate :: "Time \<Rightarrow> Duration \<Rightarrow> Time" where
  "Truncate t d =
     (if sint d \<le> 0 then t
      else Add t (- (word_of_int ((sec t * 1000000000 + nsec t) mod sint d))))"

text \<open>
  \<open>Date\<close>: the fields are normalised by carrying them over (\<open>norm\<close>; the day is not
  normalised but counted on from the first of the month, so that October 32 is November
  1), the days since the absolute epoch are counted in \<open>uint64\<close>, and the zone offset is
  looked up as if the wall clock were UTC and corrected once when that instant falls in
  another period of the zone (\<open>dateOffset\<close>). \<open>AddDate\<close> is \<open>Date\<close> on the shifted fields.
\<close>

definition norm :: "int \<Rightarrow> int \<Rightarrow> int \<Rightarrow> int \<times> int" where
  "norm hi lo base =
     (let (hi, lo) =
            (if lo < 0
             then (let n = i64 (quot (i64 (i64 (- lo) - 1)) base + 1)
                   in (i64 (hi - n), i64 (lo + i64 (n * base))))
             else (hi, lo));
          (hi, lo) =
            (if lo \<ge> base
             then (let n = quot lo base in (i64 (hi + n), i64 (lo - i64 (n * base))))
             else (hi, lo))
      in (hi, lo))"

definition daysSinceAbsoluteEpoch :: "int \<Rightarrow> int \<Rightarrow> int \<Rightarrow> int" where
  "daysSinceAbsoluteEpoch year month day =
     (let y = u64 (i64 (year - absoluteZeroYear));
          n = y div 400; y = y - 400 * n; d = u64 (daysPer400Years * n);
          n = y div 100; y = y - 100 * n; d = u64 (d + daysPer100Years * n);
          n = y div 4; y = y - 4 * n; d = u64 (d + daysPer4Years * n);
          n = y; d = u64 (d + 365 * n);
          d = u64 (d + u64 (daysBefore ! nat (month - 1)));
          d = (if isLeap year \<and> month \<ge> 3 then u64 (d + 1) else d)
      in u64 (d + u64 (i64 (day - 1))))"

definition dateOffset :: "Location \<Rightarrow> int \<Rightarrow> int" where
  "dateOffset loc unix =
     (let (offset, start, end) = lookup loc unix
      in if offset \<noteq> 0
         then (let utc = i64 (unix - offset)
               in if utc < start then fst (lookup loc (i64 (start - 1)))
                  else if utc \<ge> end then fst (lookup loc end)
                  else offset)
         else offset)"

definition Date ::
  "int \<Rightarrow> int \<Rightarrow> int \<Rightarrow> int \<Rightarrow> int \<Rightarrow> int \<Rightarrow> int \<Rightarrow> Location \<Rightarrow> Time" where
  "Date year month day hour minute second nanosecond loc =
     (let m = i64 (month - 1);
          (year, m) = norm year m 12;
          month = i64 (m + 1);
          (second, nanosecond) = norm second nanosecond 1000000000;
          (minute, second) = norm minute second 60;
          (hour, minute) = norm hour minute 60;
          (day, hour) = norm day hour 24;
          d = daysSinceAbsoluteEpoch year month day;
          absv = u64 (d * secondsPerDay);
          absv = u64 (absv
                   + u64 (i64 (hour * secondsPerHour + minute * secondsPerMinute + second)));
          unix = i64 (i64 absv + (absoluteToInternal + internalToUnix));
          unix = i64 (unix - dateOffset loc unix)
      in unixTime unix nanosecond loc)"

definition AddDate :: "Time \<Rightarrow> int \<Rightarrow> int \<Rightarrow> int \<Rightarrow> Time" where
  "AddDate t years months days =
     Date (i64 (Year t + years)) (i64 (Month t + months)) (i64 (Day t + days))
       (Hour t) (Minute t) (Second t) (nsec t) (location t)"

definition Before :: "Time \<Rightarrow> Time \<Rightarrow> bool" where
  "Before t u = (unixNano t < unixNano u)"

text \<open>
  A zone with daylight saving time, for concrete runs: America/Los_Angeles with its
  transitions of the years 2023 to 2025 (UTC-8 in winter, UTC-7 in summer; the clocks
  went forward on 2024-03-10 at 10:00 UTC, from 02:00 to 03:00 local time). And a zone
  thirty seconds east of UTC.
\<close>

definition LosAngeles :: Location where
  "LosAngeles =
     Location (- 28800)
       [(1678615200, - 25200), (1699174800, - 28800), (1710064800, - 25200),
        (1730624400, - 28800), (1741514400, - 25200), (1762074000, - 28800)]"

definition halfMinuteEast :: Location where
  "halfMinuteEast = FixedZone 30"

section \<open>models: campaign events and ScheduleForTime\<close>

text \<open>
  Of the fields of a campaign event the scheduler reads the offset, the unit and the
  delivery hour. \<open>Offset\<close> and \<open>DeliveryHour\<close> are Go \<open>int\<close>s, 64 bits wide on the
  platforms the service is built for, read as signed numbers with \<open>sint\<close>. A unit is a
  string; four of them are recognised.
\<close>

type_synonym OffsetUnit = string

definition CreatedOnKey :: string where "CreatedOnKey = ''created_on''"

definition OffsetMinute :: OffsetUnit where "OffsetMinute = ''M''"

definition OffsetHour :: OffsetUnit where "OffsetHour = ''H''"

definition OffsetDay :: OffsetUnit where "OffsetDay = ''D''"

definition OffsetWeek :: OffsetUnit where "OffsetWeek = ''W''"

definition NilDeliveryHour :: "64 word" where "NilDeliveryHour = - 1"

record CampaignEvent =
  ID :: int
  RelativeToKey :: string
  Offset :: "64 word"
  Unit :: OffsetUnit
  DeliveryHour :: "64 word"

text \<open>
  \<open>ScheduleForTime\<close>, in the order of the source: the start is converted to the
  timezone and rounded to the next minute when its seconds or nanoseconds are not zero
  (\<open>roundedStart\<close>); the offset is added, the switch on the unit failing on any unit it
  does not know (\<open>offsetApplied\<close>); the delivery hour, when there is one, replaces the time
  of day (\<open>deliveryHourApplied\<close>); a result before \<open>now\<close> is dropped.
\<close>

definition roundedStart :: "Location \<Rightarrow> Time \<Rightarrow> Time" where
  "roundedStart tz start0 =
     (let start = In start0 tz;
          scheduled = start
      in if Second start > 0 \<or> Nanosecond start > 0
         then Truncate (Add start (time_Second * 60)) time_Minute
         else scheduled)"

definition offsetApplied :: "CampaignEvent \<Rightarrow> Time \<Rightarrow> error + Time" where
  "offsetApplied e scheduled =
     (if Unit e = OffsetMinute then Inr (Add scheduled (time_Minute * Offset e))
      else if Unit e = OffsetHour then Inr (Add scheduled (time_Hour * Offset e))
      else if Unit e = OffsetDay then Inr (AddDate scheduled 0 0 (sint (Offset e)))
      else if Unit e = OffsetWeek then Inr (AddDate scheduled 0 0 (sint (Offset e * 7)))
      else Inl (Errorf (''unknown offset unit: '' @ Unit e)))"

definition deliveryHourApplied :: "CampaignEvent \<Rightarrow> Location \<Rightarrow> Time \<Rightarrow> Time" where
  "deliveryHourApplied e tz scheduled =
     (if DeliveryHour e \<noteq> NilDeliveryHour
      then Date (Year scheduled) (Month scheduled) (Day scheduled)
             (sint (DeliveryHour e)) 0 0 0 tz
      else scheduled)"

definition ScheduleForTime ::
  "CampaignEvent \<Rightarrow> Location \<Rightarrow> Time \<Rightarrow> Time \<Rightarrow> error + Time option" where
  "ScheduleForTime e tz now start =
     (case offsetApplied e (roundedStart tz start) of
        Inl err \<Rightarrow> Inl err
      | Inr scheduled \<Rightarrow>
          (let scheduled = deliveryHourApplied e tz scheduled
           in if Before scheduled now then Inr None else Inr (Some scheduled)))"

text \<open>
  The value of the variable \<open>scheduled\<close> when the function reaches its last test: the
  instant that the function has computed, whether it then returns it or not.
\<close>

definition scheduledInstant :: "CampaignEvent \<Rightarrow> Location \<Rightarrow> Time \<Rightarrow> error + Time" where
  "scheduledInstant e tz start =
     (case offsetApplied e (roundedStart tz start) of
        Inl err \<Rightarrow> Inl err
      | Inr scheduled \<Rightarrow> Inr (deliveryHourApplied e tz scheduled))"

text \<open>
  What the scheduler is meant to compute, in unbounded integers and on the wall clock of
  the timezone. \<open>unixOf\<close> is the Unix second of a time, \<open>offsetAt\<close> the UTC offset of
  a zone at a Unix second, \<open>wallUnix\<close> and \<open>wallNano\<close> the reading of the wall clock of
  the time's location, as the seconds and the nanoseconds that a clock set to UTC would
  show at that reading. \<open>wallDaysLater\<close> is the reading the wall clock shows a number
  of days after the time, and \<open>wallAtHour\<close> the reading it shows at an hour sharp on the
  date of the time.
\<close>

definition unixOf :: "Time \<Rightarrow> int" where
  "unixOf t = unixNano t div 1000000000"

definition offsetAt :: "Location \<Rightarrow> int \<Rightarrow> int" where
  "offsetAt tz u = fst (lookup tz u)"

definition wallUnix :: "Time \<Rightarrow> int" where
  "wallUnix t = unixOf t + offsetAt (location t) (unixOf t)"

definition wallNano :: "Time \<Rightarrow> int" where
  "wallNano t = unixNano t + offsetAt (location t) (unixOf t) * 1000000000"

definition wallDaysLater :: "Time \<Rightarrow> int \<Rightarrow> int" where
  "wallDaysLater t n = wallUnix t + 86400 * n"

definition wallAtHour :: "Time \<Rightarrow> int \<Rightarrow> int" where
  "wallAtHour t h = wallUnix t div 86400 * 86400 + 3600 * h"

text \<open>
  The spec's description of the instant computed when no delivery hour is set. Rounding
  up (\<open>roundUpToMinute\<close>) leaves a time alone whose wall clock shows zero seconds and
  nanoseconds, and moves any other time forward by what is missing to the next whole
  minute of the wall clock. The offset is then added in its unit (\<open>plusOffset\<close>): minutes
  and hours are durations; days, and weeks as seven days each, are calendar days, so the
  result is a time in the same location whose wall clock shows the same time of day that
  many days later (\<open>calendarDaysLater\<close>), however many hours lie in between.
\<close>

definition roundUpToMinute :: "Time \<Rightarrow> Time" where
  "roundUpToMinute t =
     (if wallNano t mod 60000000000 = 0 then t
      else Time (unixNano t + (60000000000 - wallNano t mod 60000000000)) (location t))"

definition plusDuration :: "Time \<Rightarrow> int \<Rightarrow> Time" where
  "plusDuration t ns = Time (unixNano t + ns) (location t)"

definition calendarDaysLater :: "int \<Rightarrow> Time \<Rightarrow> Time \<Rightarrow> bool" where
  "calendarDaysLater n t r =
     (location r = location t \<and> wallNano r = wallNano t + n * 86400000000000)"

definition plusOffset :: "Time \<Rightarrow> OffsetUnit \<Rightarrow> int \<Rightarrow> Time \<Rightarrow> bool" where
  "plusOffset t u n r =
     (if u = OffsetMinute then r = plusDuration t (n * 60000000000)
      else if u = OffsetHour then r = plusDuration t (n * 3600000000000)
      else if u = OffsetDay then calendarDaysLater n t r
      else calendarDaysLater (7 * n) t r)"

text \<open>
  The conditions under which the 64-bit arithmetic of the \<open>time\<close> package is exact. A
  time is \<open>representable\<close> when its seconds since the Unix epoch, since the internal
  epoch and, on its wall clock, since the Unix epoch are values of \<open>int64\<close>, and its wall
  clock is not before the absolute epoch: the numbers that \<open>abs\<close> computes. \<open>time.Date\<close>
  resolves a reading of the wall clock in a zone (\<open>dateResolves\<close>) when the reading,
  the instant returned and its seconds since the internal epoch are values of \<open>int64\<close>,
  and the offset that \<open>dateOffset\<close> settles on is the offset in force at the instant
  returned. A zone without transitions resolves every reading within the range; a zone
  with daylight saving time does not resolve the readings that the change to summer
  time skips.
\<close>

definition representable :: "Time \<Rightarrow> bool" where
  "representable t =
     (fitsInt64 (unixOf t) \<and> fitsInt64 (unixOf t + unixToInternal)
      \<and> fitsInt64 (wallUnix t) \<and> 0 \<le> wallUnix t + (unixToInternal + internalToAbsolute))"

definition dateResolves :: "Location \<Rightarrow> int \<Rightarrow> bool" where
  "dateResolves tz w =
     (let u = w - dateOffset tz w
      in fitsInt64 w \<and> fitsInt64 u \<and> fitsInt64 (u + unixToInternal)
         \<and> offsetAt tz u = dateOffset tz w)"

text \<open>
  The property of \<open>monthDay\<close> that makes \<open>Date\<close> undo \<open>absDate\<close>: the month is one of
  the twelve, the day one of at most 31, and the days before the month, the leap day
  when the month is after February of a leap year, and the days before the day add up
  to the day of the year.
\<close>

definition monthDayOk :: "int \<Rightarrow> int \<Rightarrow> bool" where
  "monthDayOk year yday =
     (case monthDay year yday of (m, d) \<Rightarrow>
        1 \<le> m \<and> m \<le> 12 \<and> 1 \<le> d \<and> d \<le> 31
        \<and> daysBefore ! nat (m - 1) + (if isLeap year \<and> m \<ge> 3 then 1 else 0) + (d - 1) = yday)"

text \<open>
  Campaign events to run the scheduler on, and a start time ten and a half seconds before
  the last second that \<open>time.Time\<close> can hold.
\<close>

definition hourAfterHalfMinute :: CampaignEvent where
  "hourAfterHalfMinute =
     \<lparr>ID = 1, RelativeToKey = ''created_on'', Offset = 1, Unit = ''H'', DeliveryHour = - 1\<rparr>"

definition minuteLater :: CampaignEvent where
  "minuteLater =
     \<lparr>ID = 2, RelativeToKey = ''created_on'', Offset = 1, Unit = ''M'', DeliveryHour = - 1\<rparr>"

definition overflowingMinutes :: CampaignEvent where
  "overflowingMinutes =
     \<lparr>ID = 3, RelativeToKey = ''created_on'', Offset = 153722868, Unit = ''M'',
      DeliveryHour = - 1\<rparr>"

definition twoDaysAtNine :: CampaignEvent where
  "twoDaysAtNine =
     \<lparr>ID = 4, RelativeToKey = ''created_on'', Offset = 2, Unit = ''D'', DeliveryHour = 9\<rparr>"

definition twoDaysAtTwentyFour :: CampaignEvent where
  "twoDaysAtTwentyFour =
     \<lparr>ID = 5, RelativeToKey = ''created_on'', Offset = 2, Unit = ''D'', DeliveryHour = 24\<rparr>"

definition dayLater :: CampaignEvent where
  "dayLater =
     \<lparr>ID = 6, RelativeToKey = ''created_on'', Offset = 1, Unit = ''D'', DeliveryHour = - 1\<rparr>"

definition overflowingDays :: CampaignEvent where
  "overflowingDays =
     \<lparr>ID = 7, RelativeToKey = ''created_on'', Offset = 106751990428264, Unit = ''D'',
      DeliveryHour = - 1\<rparr>"

definition overflowingWeeks :: CampaignEvent where
  "overflowingWeeks =
     \<lparr>ID = 8, RelativeToKey = ''created_on'', Offset = 2635249153387078803, Unit = ''W'',
      DeliveryHour = - 1\<rparr>"

definition dayLaterAtTwo :: CampaignEvent where
  "dayLaterAtTwo =
     \<lparr>ID = 9, RelativeToKey = ''created_on'', Offset = 1, Unit = ''D'', DeliveryHour = 2\<rparr>"

definition dayLaterAtNine :: CampaignEvent where
  "dayLaterAtNine =
     \<lparr>ID = 10, RelativeToKey = ''created_on'', Offset = 1, Unit = ''D'', DeliveryHour = 9\<rparr>"

definition lastDayAtTwentyThree :: CampaignEvent where
  "lastDayAtTwentyThree =
     \<lparr>ID = 11, RelativeToKey = ''created_on'', Offset = 106751990428263, Unit = ''D'',
      DeliveryHour = 23\<rparr>"

definition nearEndOfTime :: Time where
  "nearEndOfTime = Time 9223371974719178997500000000 UTC"

section \<open>Theorems: hooks\<close>

lemma Apply_updates_safe:
  "list_all applySafe sessions \<Longrightarrow>
   Apply_updates sessions acc = Inr (acc @ map lastWins sessions)"
proof (induction sessions arbitrary: acc)
  case Nil
  then show ?case by simp
next
  case (Cons se sessions)
  obtain s e where se: "se = (s, e)" by (cases se)
  from Cons.prems have rest: "list_all applySafe sessions" and "applySafe se"
    by simp_all
  with se have ne: "e \<noteq> []" and lc: "isLanguageChange (last e)"
    by (simp_all add: applySafe_def)
  from ne have idx: "e ! (length e - 1) = last e"
    by (simp add: last_conv_nth)
  from lc obtain l where l: "last e = ContactLanguageChangedEvent l"
    by (cases "last e") (simp_all add: isLanguageChange_def)
  from ne have len: "\<not> int (length e) - 1 < 0"
    by (cases e) simp_all
  show ?case
    using Cons.IH [OF rest] se len idx l
    by (simp add: lastWins_def)
qed

lemma Apply_updates_unsafe:
  "\<not> list_all applySafe sessions \<Longrightarrow> \<exists>p. Apply_updates sessions acc = Inl p"
proof (induction sessions arbitrary: acc)
  case Nil
  then show ?case by simp
next
  case (Cons se sessions)
  obtain s e where se: "se = (s, e)" by (cases se)
  show ?case
  proof (cases "applySafe se")
    case True
    with Cons.prems have "\<not> list_all applySafe sessions" by simp
    from Cons.IH [OF this] obtain p where
      p: "\<And>acc. \<exists>p. Apply_updates sessions acc = Inl p" by blast
    from True se have ne: "e \<noteq> []" and lc: "isLanguageChange (last e)"
      by (simp_all add: applySafe_def)
    from ne have idx: "e ! (length e - 1) = last e"
      by (simp add: last_conv_nth)
    from lc obtain l where l: "last e = ContactLanguageChangedEvent l"
      by (cases "last e") (simp_all add: isLanguageChange_def)
    from ne have len: "\<not> int (length e) - 1 < 0"
      by (cases e) simp_all
    show ?thesis
      using p se len idx l by simp
  next
    case False
    show ?thesis
    proof (cases "e = []")
      case True
      with se show ?thesis by simp
    next
      case ne: False
      with False se have nlc: "\<not> isLanguageChange (last e)"
        by (simp add: applySafe_def)
      from ne have idx: "e ! (length e - 1) = last e"
        by (simp add: last_conv_nth)
      from nlc obtain n where "last e = OtherEvent n"
        by (cases "last e") (simp_all add: isLanguageChange_def)
      with se idx show ?thesis by simp
    qed
  qed
qed

text \<open>
  C7. When every session of the commit batch has accumulated one or more language change
  events, \<open>Apply\<close> hands \<open>BulkSQL\<close> exactly one row per session, in the order of the map's
  iteration, and the row of a session carries that session's contact id and the language of
  its last event.
\<close>

theorem C7_last_event_wins:
  assumes "\<forall>se \<in> set sessions. snd se \<noteq> [] \<and> (\<forall>ev \<in> set (snd se). isLanguageChange ev)"
  shows "Apply BulkSQL sessions =
           Inr (map lastWins sessions,
                BulkSQL ''updating contact language'' updateContactLanguageSQL
                  (map lastWins sessions))
         \<and> length (map lastWins sessions) = length sessions
         \<and> (\<forall>i < length sessions.
              lu_ContactID (map lastWins sessions ! i) = ContactID (fst (sessions ! i))
              \<and> lu_Language (map lastWins sessions ! i)
                  = Language (last (snd (sessions ! i))))"
proof -
  have "list_all applySafe sessions"
    using assms by (auto simp: list_all_iff applySafe_def)
  from Apply_updates_safe [OF this, of "[]"]
  show ?thesis
    by (simp add: Apply_def lastWins_def)
qed

theorem C7_last_event_wins_witness:
  "Apply (\<lambda>label sql rows. None)
     [(Session 1 7, [ContactLanguageChangedEvent ''A'', ContactLanguageChangedEvent ''B'',
                     ContactLanguageChangedEvent ''C''])]
   = Inr ([\<lparr>lu_ContactID = 7, lu_Language = ''C''\<rparr>], None)"
  using C7_last_event_wins [of
      "[(Session 1 7, [ContactLanguageChangedEvent ''A'', ContactLanguageChangedEvent ''B'',
                       ContactLanguageChangedEvent ''C''])]"
      "\<lambda>label sql rows. None"]
  by (simp add: isLanguageChange_def lastWins_def)

text \<open>
  C10. \<open>Apply\<close> faults (panics) exactly when some session of the map has an empty event
  list or a last event that is not a language change event: under the precondition the
  indexing and the downcast cannot fail, and any input that violates it makes the call
  panic instead of returning an error.
\<close>

theorem C10_apply_precondition:
  "(\<exists>p. Apply BulkSQL sessions = Inl p)
     = (\<exists>se \<in> set sessions. snd se = [] \<or> \<not> isLanguageChange (last (snd se)))"
proof (cases "list_all applySafe sessions")
  case True
  from Apply_updates_safe [OF this, of "[]"] True
  show ?thesis
    by (auto simp: Apply_def list_all_iff applySafe_def)
next
  case False
  from Apply_updates_unsafe [OF this, of "[]"] False
  show ?thesis
    by (auto simp: Apply_def list_all_iff applySafe_def)
qed

theorem C10_apply_precondition_witness:
  "Apply (\<lambda>label sql rows. None) [(Session 1 7, [])] = Inl IndexOutOfRange
   \<and> Apply (\<lambda>label sql rows. None)
       [(Session 1 7, [ContactLanguageChangedEvent ''A'', OtherEvent ''contact_name_changed''])]
     = Inl InterfaceConversion
   \<and> (\<exists>r. Apply (\<lambda>label sql rows. None)
            [(Session 1 7, [OtherEvent ''x'', ContactLanguageChangedEvent ''fra''])] = Inr r)"
proof -
  have a: "Apply (\<lambda>label sql rows. None) [(Session 1 7, [])] = Inl IndexOutOfRange"
    by (simp add: Apply_def)
  have b: "Apply (\<lambda>label sql rows. None)
       [(Session 1 7, [ContactLanguageChangedEvent ''A'', OtherEvent ''contact_name_changed''])]
     = Inl InterfaceConversion"
    by (simp add: Apply_def)
  have "\<not> (\<exists>p. Apply (\<lambda>label sql rows. None)
            [(Session 1 7, [OtherEvent ''x'', ContactLanguageChangedEvent ''fra''])] = Inl p)"
    using C10_apply_precondition [of "\<lambda>label sql rows. None"
        "[(Session 1 7, [OtherEvent ''x'', ContactLanguageChangedEvent ''fra''])]"]
    by (simp add: isLanguageChange_def)
  then have c: "\<exists>r. Apply (\<lambda>label sql rows. None)
            [(Session 1 7, [OtherEvent ''x'', ContactLanguageChangedEvent ''fra''])] = Inr r"
    by (cases "Apply (\<lambda>label sql rows. None)
            [(Session 1 7, [OtherEvent ''x'', ContactLanguageChangedEvent ''fra''])]") auto
  from a b c show ?thesis by blast
qed

section \<open>Theorems: CreateBroadcastBatches\<close>

text \<open>
  Ranks lose no iteration order: whatever order Go visits the keys of a map in, the
  position in that order is a rank under which \<open>rangeKeys\<close> visits them in the same order.
  A statement proved for every rank holds for every run.
\<close>

lemma map_position: "distinct order \<Longrightarrow> map (position order) order = [0..<length order]"
proof (induction order)
  case Nil
  then show ?case by simp
next
  case (Cons x xs)
  then have "map (position (x # xs)) xs = map (\<lambda>k. Suc (position xs k)) xs"
    by auto
  also have "\<dots> = map Suc (map (position xs) xs)" by simp
  also have "\<dots> = map Suc [0..<length xs]" using Cons by simp
  also have "\<dots> = [Suc 0..<Suc (length xs)]" by (simp only: map_Suc_upt)
  finally have r: "map (position (x # xs)) xs = [Suc 0..<Suc (length xs)]" .
  have "[0..<length (x # xs)] = 0 # [Suc 0..<Suc (length xs)]"
    by (simp only: list.size upt_conv_Cons) (simp add: upt_conv_Cons del: upt_Suc)
  moreover have "map (position (x # xs)) (x # xs) = 0 # map (position (x # xs)) xs"
    by simp
  ultimately show ?case unfolding r by (simp only:)
qed

lemma position_inj: "distinct order \<Longrightarrow> inj_on (position order) (set order)"
proof -
  assume d: "distinct order"
  then have "distinct (map (position order) order)" by (simp add: map_position)
  then show ?thesis by (simp add: distinct_map)
qed

lemma filter_eq_single:
  "distinct xs \<Longrightarrow> k \<in> set xs \<Longrightarrow> filter (\<lambda>x. k = x) xs = [k]"
  by (induction xs) (auto simp: filter_empty_conv)

lemma rangeKeys_any_order:
  assumes "distinct ks" "distinct order" "set order = set ks"
  shows "rangeKeys (position order) ks = order"
  unfolding rangeKeys_def
proof (rule properties_for_sort_key)
  show "mset order = mset ks"
    using assms by (simp add: set_eq_iff_mset_eq_distinct)
  show "sorted (map (position order) order)"
    using assms(2) by (simp add: map_position)
  fix k assume k: "k \<in> set order"
  have e: "(position order k = position order x) = (k = x)" if "x \<in> set order" for x
    using position_inj [OF assms(2)] k that by (auto dest: inj_onD)
  have "filter (\<lambda>x. position order k = position order x) order = filter (\<lambda>x. k = x) order"
    by (rule filter_cong) (simp_all add: e)
  moreover have "filter (\<lambda>x. position order k = position order x) ks = filter (\<lambda>x. k = x) ks"
    by (rule filter_cong) (simp_all add: e assms(3))
  ultimately show "filter (\<lambda>x. position order k = position order x) order
      = filter (\<lambda>x. position order k = position order x) ks"
    using filter_eq_single [OF assms(2) k] filter_eq_single [OF assms(1), of k] k assms(3)
    by simp
qed

lemma set_foldl_setTrue: "set (foldl setTrue acc xs) = set acc \<union> set xs"
  by (induction xs arbitrary: acc) (auto simp: setTrue_def)

lemma distinct_foldl_setTrue: "distinct acc \<Longrightarrow> distinct (foldl setTrue acc xs)"
  by (induction xs arbitrary: acc) (auto simp: setTrue_def)

lemma queueBatch_False:
  "qs_tasks (queueBatch env bcast q R U False st) = qs_tasks st @ [plainTask bcast q (qs_contacts st)]"
  "qs_contacts (queueBatch env bcast q R U False st) = []"
  by (simp_all add: queueBatch_def Let_def plainTask_def)

lemma queueBatch_True:
  "qs_tasks (queueBatch env bcast q R U True st) =
     qs_tasks st @ [lastTask bcast q (qs_contacts st @ rangeKeys (rangeRepeated env) (map fst R)) U]"
  by (simp add: queueBatch_def Let_def lastTask_def)

lemma queueBatch_logs:
  "qs_logs (queueBatch env bcast q R U isLast st) =
     qs_logs st @ (case AddTask env (length (qs_tasks st))
                          (last (qs_tasks (queueBatch env bcast q R U isLast st))) of
                     None \<Rightarrow> [] | Some e \<Rightarrow> [(e, ''error while queuing broadcast batch'')])"
  by (simp add: queueBatch_def Let_def)

lemma batchLoop_chunks:
  "length (qs_contacts st) \<le> startBatchSize \<Longrightarrow>
   \<exists>chunks rem.
      qs_tasks (batchLoop (queueBatch env bcast q R U) cs st)
        = qs_tasks st @ map (plainTask bcast q) chunks
    \<and> qs_contacts (batchLoop (queueBatch env bcast q R U) cs st) = rem
    \<and> concat chunks @ rem = qs_contacts st @ cs
    \<and> (\<forall>ch \<in> set chunks. length ch = startBatchSize)
    \<and> length rem \<le> startBatchSize
    \<and> (qs_contacts st @ cs \<noteq> [] \<longrightarrow> rem \<noteq> [])"
proof (induction cs arbitrary: st)
  case Nil
  show ?case
    by (rule exI [of _ "[]"], rule exI [of _ "qs_contacts st"]) (use Nil in simp)
next
  case (Cons c cs)
  let ?qb = "queueBatch env bcast q R U"
  show ?case
  proof (cases "length (qs_contacts st) = startBatchSize")
    case True
    let ?st2 = "(?qb False st)\<lparr>qs_contacts := [c]\<rparr>"
    have step: "batchLoop ?qb (c # cs) st = batchLoop ?qb cs ?st2"
      using True by (simp add: Let_def queueBatch_False)
    have "length (qs_contacts ?st2) \<le> startBatchSize"
      by (simp add: startBatchSize_def)
    from Cons.IH [OF this] obtain chunks rem where
      t: "qs_tasks (batchLoop ?qb cs ?st2) = qs_tasks ?st2 @ map (plainTask bcast q) chunks"
      and r: "qs_contacts (batchLoop ?qb cs ?st2) = rem"
      and c: "concat chunks @ rem = qs_contacts ?st2 @ cs"
      and l: "\<forall>ch \<in> set chunks. length ch = startBatchSize"
      and b: "length rem \<le> startBatchSize"
      and n: "qs_contacts ?st2 @ cs \<noteq> [] \<longrightarrow> rem \<noteq> []"
      by blast
    show ?thesis
      apply (rule exI [of _ "qs_contacts st # chunks"])
      apply (rule exI [of _ rem])
      using t r c l b n True unfolding step
      by (simp add: queueBatch_False)
  next
    case False
    let ?st2 = "st\<lparr>qs_contacts := qs_contacts st @ [c]\<rparr>"
    have step: "batchLoop ?qb (c # cs) st = batchLoop ?qb cs ?st2"
      using False by (simp add: Let_def)
    have "length (qs_contacts ?st2) \<le> startBatchSize"
      using False Cons.prems by simp
    from Cons.IH [OF this] obtain chunks rem where
      t: "qs_tasks (batchLoop ?qb cs ?st2) = qs_tasks ?st2 @ map (plainTask bcast q) chunks"
      and r: "qs_contacts (batchLoop ?qb cs ?st2) = rem"
      and c: "concat chunks @ rem = qs_contacts ?st2 @ cs"
      and l: "\<forall>ch \<in> set chunks. length ch = startBatchSize"
      and b: "length rem \<le> startBatchSize"
      and n: "qs_contacts ?st2 @ cs \<noteq> [] \<longrightarrow> rem \<noteq> []"
      by blast
    show ?thesis
      apply (rule exI [of _ chunks])
      apply (rule exI [of _ rem])
      using t r c l b n unfolding step
      by simp
  qed
qed

lemma urnLoop_contacts:
  "urnLoop um (C, R, U) = (C', R', U') \<Longrightarrow> set C' = set C - snd ` set um"
proof (induction um "(C, R, U)" arbitrary: C R U rule: urnLoop.induct)
  case 1
  then show ?case by simp
next
  case (2 u cid rest contactIDs repeatedContacts urnContacts)
  then show ?case by (auto split: if_splits)
qed

lemma urnLoop_distinct:
  "urnLoop um (C, R, U) = (C', R', U') \<Longrightarrow> distinct C \<Longrightarrow> distinct C'"
proof (induction um "(C, R, U)" arbitrary: C R U rule: urnLoop.induct)
  case 1
  then show ?case by simp
next
  case (2 u cid rest contactIDs repeatedContacts urnContacts)
  then show ?case by (auto split: if_splits simp: distinct_removeAll)
qed

lemma urnLoop_repeated_keys:
  "urnLoop um (C, R, U) = (C', R', U') \<Longrightarrow>
   fst ` set R' = fst ` set R \<union> (set C \<inter> snd ` set um)"
proof (induction um "(C, R, U)" arbitrary: C R U rule: urnLoop.induct)
  case 1
  then show ?case by simp
next
  case (2 u cid rest contactIDs repeatedContacts urnContacts)
  show ?case
  proof (cases "cid \<in> set contactIDs")
    case True
    with 2 have "fst ` set R' = fst ` set (AList.update cid u repeatedContacts)
        \<union> (set (removeAll cid contactIDs) \<inter> snd ` set rest)"
      by simp
    moreover have "fst ` set (AList.update cid u repeatedContacts)
        = insert cid (fst ` set repeatedContacts)"
      using dom_update [of cid u repeatedContacts] by (simp add: dom_map_of_conv_image_fst)
    ultimately show ?thesis using True by auto
  next
    case False
    with 2 have "fst ` set R' = fst ` set repeatedContacts \<union> (set contactIDs \<inter> snd ` set rest)"
      by simp
    then show ?thesis using False by auto
  qed
qed

lemma urnLoop_repeated_distinct:
  "urnLoop um (C, R, U) = (C', R', U') \<Longrightarrow> distinct (map fst R) \<Longrightarrow> distinct (map fst R')"
proof (induction um "(C, R, U)" arbitrary: C R U rule: urnLoop.induct)
  case 1
  then show ?case by simp
next
  case (2 u cid rest contactIDs repeatedContacts urnContacts)
  then show ?case by (auto split: if_splits simp: distinct_update)
qed

lemma urnLoop_urns:
  "urnLoop um (C, R, U) = (C', R', U') \<Longrightarrow>
   map_of U' cid = Some a \<Longrightarrow> map_of U cid = Some a \<or> (a, cid) \<in> set um"
proof (induction um "(C, R, U)" arbitrary: C R U rule: urnLoop.induct)
  case 1
  then show ?case by simp
next
  case (2 u k rest contactIDs repeatedContacts urnContacts)
  then show ?case
    by (fastforce split: if_splits simp: update_conv)
qed

lemma urnLoop_urn_keys:
  "urnLoop um (C, R, U) = (C', R', U') \<Longrightarrow> fst ` set U' = fst ` set U \<union> snd ` set um"
proof (induction um "(C, R, U)" arbitrary: C R U rule: urnLoop.induct)
  case 1
  then show ?case by simp
next
  case (2 u cid rest contactIDs repeatedContacts urnContacts)
  have k: "\<And>al. fst ` set (AList.update cid u al) = insert cid (fst ` set al)"
    using dom_update [of cid u] by (simp add: dom_map_of_conv_image_fst)
  from 2 show ?case
    by (auto split: if_splits simp: k)
qed

lemma explicitAndGroup_set:
  "set (explicitAndGroup env bcast)
     = set (b_ContactIDs bcast) \<union> set (fst (ContactIDsForGroupIDs env (b_GroupIDs bcast)))"
  by (simp add: explicitAndGroup_def set_foldl_setTrue)

lemma explicitAndGroup_distinct: "distinct (explicitAndGroup env bcast)"
  by (simp add: explicitAndGroup_def distinct_foldl_setTrue)

lemma explicitAndGroup_length:
  "length (explicitAndGroup env bcast)
     = card (set (b_ContactIDs bcast) \<union> set (fst (ContactIDsForGroupIDs env (b_GroupIDs bcast))))"
  using distinct_card [OF explicitAndGroup_distinct, of env bcast]
  by (simp add: explicitAndGroup_set)

lemma addTaskLogs_snoc:
  "addTaskLogs env (ts @ [t]) =
     addTaskLogs env ts @ (case AddTask env (length ts) t of
                             None \<Rightarrow> []
                           | Some e \<Rightarrow> [(e, ''error while queuing broadcast batch'')])"
  by (simp add: addTaskLogs_def enumerate_append_eq)

lemma queueBatch_logs_inv:
  "qs_logs st = addTaskLogs env (qs_tasks st) \<Longrightarrow>
   qs_logs (queueBatch env bcast q R U isLast st)
     = addTaskLogs env (qs_tasks (queueBatch env bcast q R U isLast st))"
  by (simp add: queueBatch_def Let_def addTaskLogs_snoc)

lemma batchLoop_logs_inv:
  "qs_logs st = addTaskLogs env (qs_tasks st) \<Longrightarrow>
   qs_logs (batchLoop (queueBatch env bcast q R U) cs st)
     = addTaskLogs env (qs_tasks (batchLoop (queueBatch env bcast q R U) cs st))"
proof (induction cs arbitrary: st)
  case Nil
  then show ?case by simp
next
  case (Cons c cs)
  show ?case
  proof (cases "length (qs_contacts st) = startBatchSize")
    case True
    have "qs_logs ((queueBatch env bcast q R U False st)\<lparr>qs_contacts := [c]\<rparr>)
        = addTaskLogs env (qs_tasks ((queueBatch env bcast q R U False st)\<lparr>qs_contacts := [c]\<rparr>))"
      using queueBatch_logs_inv [OF Cons.prems, of bcast q R U False] by simp
    from Cons.IH [OF this] True show ?thesis
      by (simp add: Let_def queueBatch_False)
  next
    case False
    have "qs_logs (st\<lparr>qs_contacts := qs_contacts st @ [c]\<rparr>)
        = addTaskLogs env (qs_tasks (st\<lparr>qs_contacts := qs_contacts st @ [c]\<rparr>))"
      using Cons.prems by simp
    from Cons.IH [OF this] False show ?thesis
      by (simp add: Let_def)
  qed
qed

lemma CreateBroadcastBatches_ok:
  assumes "GetOrgAssets env (b_OrgID bcast) = Inr org"
    and "GetSessionAssets env org = Inr sa"
    and "ContactIDsFromURNs env org sa (b_URNs bcast) = Inr um"
    and "urnLoop um (explicitAndGroup env bcast, [], []) = (C', R, U)"
  shows "CreateBroadcastBatches env bcast =
     (let qb = queueBatch env bcast (chosenQueue env bcast) R U;
          st = qb True (batchLoop qb (rangeKeys (rangeContactIDs env) C')
                 \<lparr>qs_contacts = [], qs_err = None, qs_tasks = [], qs_logs = []\<rparr>)
      in \<lparr>cr_ret = None, cr_tasks = qs_tasks st, cr_logs = qs_logs st\<rparr>)"
  using assms
  by (simp add: CreateBroadcastBatches_def explicitAndGroup_def chosenQueue_def Let_def
      split_def)

lemma CreateBroadcastBatches_shape:
  assumes "GetOrgAssets env (b_OrgID bcast) = Inr org"
    and "GetSessionAssets env org = Inr sa"
    and "ContactIDsFromURNs env org sa (b_URNs bcast) = Inr um"
    and "urnLoop um (explicitAndGroup env bcast, [], []) = (C', R, U)"
  shows "\<exists>chunks rem.
      cr_tasks (CreateBroadcastBatches env bcast)
        = map (plainTask bcast (chosenQueue env bcast)) chunks
          @ [lastTask bcast (chosenQueue env bcast)
               (rem @ rangeKeys (rangeRepeated env) (map fst R)) U]
    \<and> concat chunks @ rem = rangeKeys (rangeContactIDs env) C'
    \<and> (\<forall>ch \<in> set chunks. length ch = startBatchSize)
    \<and> length rem \<le> startBatchSize
    \<and> (C' \<noteq> [] \<longrightarrow> rem \<noteq> [])"
proof -
  let ?q = "chosenQueue env bcast"
  let ?st0 = "\<lparr>qs_contacts = [], qs_err = None, qs_tasks = [], qs_logs = []\<rparr>"
  let ?cs = "rangeKeys (rangeContactIDs env) C'"
  have "length (qs_contacts ?st0) \<le> startBatchSize" by simp
  from batchLoop_chunks [OF this, of env bcast ?q R U ?cs]
  obtain chunks rem where
    t: "qs_tasks (batchLoop (queueBatch env bcast ?q R U) ?cs ?st0)
          = map (plainTask bcast ?q) chunks"
    and r: "qs_contacts (batchLoop (queueBatch env bcast ?q R U) ?cs ?st0) = rem"
    and c: "concat chunks @ rem = ?cs"
    and l: "\<forall>ch \<in> set chunks. length ch = startBatchSize"
    and b: "length rem \<le> startBatchSize"
    and n: "?cs \<noteq> [] \<longrightarrow> rem \<noteq> []"
    by auto
  have ne: "C' \<noteq> [] \<longrightarrow> ?cs \<noteq> []"
    by (metis rangeKeys_def length_sort length_0_conv)
  show ?thesis
    apply (rule exI [of _ chunks])
    apply (rule exI [of _ rem])
    using t r c l b n ne
    by (simp add: CreateBroadcastBatches_ok [OF assms] Let_def queueBatch_True)
qed

lemma CreateBroadcastBatches_logs:
  assumes "GetOrgAssets env (b_OrgID bcast) = Inr org"
    and "GetSessionAssets env org = Inr sa"
    and "ContactIDsFromURNs env org sa (b_URNs bcast) = Inr um"
  shows "cr_ret (CreateBroadcastBatches env bcast) = None
    \<and> cr_logs (CreateBroadcastBatches env bcast)
        = addTaskLogs env (cr_tasks (CreateBroadcastBatches env bcast))"
proof -
  obtain C' R U where u: "urnLoop um (explicitAndGroup env bcast, [], []) = (C', R, U)"
    by (cases "urnLoop um (explicitAndGroup env bcast, [], [])") auto
  let ?st0 = "\<lparr>qs_contacts = [], qs_err = None, qs_tasks = [], qs_logs = []\<rparr>"
  have "qs_logs ?st0 = addTaskLogs env (qs_tasks ?st0)"
    by (simp add: addTaskLogs_def)
  from queueBatch_logs_inv [OF batchLoop_logs_inv [OF this]]
  show ?thesis
    by (simp add: CreateBroadcastBatches_ok [OF assms u] Let_def)
qed

lemma length_concat_uniform:
  "\<forall>ch \<in> set chunks. length ch = n \<Longrightarrow> length (concat chunks) = n * length chunks"
  by (induction chunks) simp_all

lemma fan_out_structure:
  assumes "GetOrgAssets env (b_OrgID bcast) = Inr org"
    and "GetSessionAssets env org = Inr sa"
    and "ContactIDsFromURNs env org sa (b_URNs bcast) = Inr urnMap"
  obtains chunks rem reps urns where
      "cr_tasks (CreateBroadcastBatches env bcast)
        = map (plainTask bcast (chosenQueue env bcast)) chunks
          @ [lastTask bcast (chosenQueue env bcast) (rem @ reps) urns]"
    and "distinct (concat chunks @ rem)"
    and "set (concat chunks @ rem)
        = (set (b_ContactIDs bcast) \<union> set (fst (ContactIDsForGroupIDs env (b_GroupIDs bcast))))
          - snd ` set urnMap"
    and "\<forall>ch \<in> set chunks. length ch = startBatchSize"
    and "length rem \<le> startBatchSize"
    and "concat chunks @ rem \<noteq> [] \<longrightarrow> rem \<noteq> []"
    and "distinct reps"
    and "set reps
        = (set (b_ContactIDs bcast) \<union> set (fst (ContactIDsForGroupIDs env (b_GroupIDs bcast))))
          \<inter> snd ` set urnMap"
    and "fst ` set urns = snd ` set urnMap"
    and "\<forall>cid a. map_of urns cid = Some a \<longrightarrow> (a, cid) \<in> set urnMap"
proof -
  obtain C' R U where u: "urnLoop urnMap (explicitAndGroup env bcast, [], []) = (C', R, U)"
    by (cases "urnLoop urnMap (explicitAndGroup env bcast, [], [])") auto
  from CreateBroadcastBatches_shape [OF assms u] obtain chunks rem where
    t: "cr_tasks (CreateBroadcastBatches env bcast)
        = map (plainTask bcast (chosenQueue env bcast)) chunks
          @ [lastTask bcast (chosenQueue env bcast)
               (rem @ rangeKeys (rangeRepeated env) (map fst R)) U]"
    and c: "concat chunks @ rem = rangeKeys (rangeContactIDs env) C'"
    and l: "\<forall>ch \<in> set chunks. length ch = startBatchSize"
    and b: "length rem \<le> startBatchSize"
    and n: "C' \<noteq> [] \<longrightarrow> rem \<noteq> []"
    by blast
  let ?reps = "rangeKeys (rangeRepeated env) (map fst R)"
  have d1: "distinct (concat chunks @ rem)"
    unfolding c rangeKeys_def
    using urnLoop_distinct [OF u explicitAndGroup_distinct] by simp
  have s1: "set (concat chunks @ rem)
        = (set (b_ContactIDs bcast) \<union> set (fst (ContactIDsForGroupIDs env (b_GroupIDs bcast))))
          - snd ` set urnMap"
    unfolding c rangeKeys_def
    using urnLoop_contacts [OF u] by (simp add: explicitAndGroup_set)
  have n': "concat chunks @ rem \<noteq> [] \<longrightarrow> rem \<noteq> []"
    using n c unfolding rangeKeys_def by (metis length_sort length_0_conv)
  have d2: "distinct ?reps"
    unfolding rangeKeys_def using urnLoop_repeated_distinct [OF u] by simp
  have s2: "set ?reps
        = (set (b_ContactIDs bcast) \<union> set (fst (ContactIDsForGroupIDs env (b_GroupIDs bcast))))
          \<inter> snd ` set urnMap"
    unfolding rangeKeys_def
    using urnLoop_repeated_keys [OF u] by (simp add: explicitAndGroup_set)
  have k: "fst ` set U = snd ` set urnMap"
    using urnLoop_urn_keys [OF u] by simp
  have a: "\<forall>cid a. map_of U cid = Some a \<longrightarrow> (a, cid) \<in> set urnMap"
    using urnLoop_urns [OF u] by auto
  from t d1 s1 l b n' d2 s2 k a show ?thesis
    by (rule that)
qed

lemma count_list_distinct: "distinct xs \<Longrightarrow> x \<in> set xs \<Longrightarrow> count_list xs x = 1"
  by (induction xs) auto

lemma addTaskLogs_mem:
  "i < length ts \<Longrightarrow> AddTask env i (ts ! i) = Some e \<Longrightarrow>
   (e, ''error while queuing broadcast batch'') \<in> set (addTaskLogs env ts)"
proof -
  assume i: "i < length ts" and f: "AddTask env i (ts ! i) = Some e"
  from i have "(i, ts ! i) \<in> set (enumerate 0 ts)"
    by (simp add: in_set_enumerate_eq)
  with f show ?thesis
    unfolding addTaskLogs_def by (force simp: set_concat)
qed


text \<open>
  C1, as the code has it. When the three lookups succeed, at least one batch is emitted
  and every emitted batch goes to the queue chosen from the number of distinct contact
  ids among the explicit contacts and the group members, counted before the addresses
  are resolved: the handler queue when there are at most two, the batch queue otherwise.
  Contacts reached through an address only do not count. A total recipient count of at
  most two still implies the handler queue.
\<close>

theorem C1_queue_by_contact_ids:
  assumes "GetOrgAssets env (b_OrgID bcast) = Inr org"
    and "GetSessionAssets env org = Inr sa"
    and "ContactIDsFromURNs env org sa (b_URNs bcast) = Inr urnMap"
  shows "cr_tasks (CreateBroadcastBatches env bcast) \<noteq> []
    \<and> (\<forall>t \<in> set (cr_tasks (CreateBroadcastBatches env bcast)).
         t_queue t =
           (if card (set (b_ContactIDs bcast)
                     \<union> set (fst (ContactIDsForGroupIDs env (b_GroupIDs bcast)))) \<le> 2
            then HandlerQueue else BatchQueue))
    \<and> (totalRecipients (b_ContactIDs bcast)
          (fst (ContactIDsForGroupIDs env (b_GroupIDs bcast))) urnMap \<le> 2 \<longrightarrow>
        (\<forall>t \<in> set (cr_tasks (CreateBroadcastBatches env bcast)). t_queue t = HandlerQueue))"
proof -
  obtain C' R U where u: "urnLoop urnMap (explicitAndGroup env bcast, [], []) = (C', R, U)"
    by (cases "urnLoop urnMap (explicitAndGroup env bcast, [], [])") auto
  from CreateBroadcastBatches_shape [OF assms u] obtain chunks rem where
    t: "cr_tasks (CreateBroadcastBatches env bcast)
        = map (plainTask bcast (chosenQueue env bcast)) chunks
          @ [lastTask bcast (chosenQueue env bcast)
               (rem @ rangeKeys (rangeRepeated env) (map fst R)) U]"
    by blast
  let ?D = "set (b_ContactIDs bcast) \<union> set (fst (ContactIDsForGroupIDs env (b_GroupIDs bcast)))"
  have q: "chosenQueue env bcast = (if card ?D \<le> 2 then HandlerQueue else BatchQueue)"
    by (simp add: chosenQueue_def explicitAndGroup_length)
  have all: "\<forall>t \<in> set (cr_tasks (CreateBroadcastBatches env bcast)).
      t_queue t = chosenQueue env bcast"
    unfolding t by (auto simp: plainTask_def lastTask_def)
  have "card ?D \<le> card (?D \<union> snd ` set urnMap)"
    by (rule card_mono) auto
  then have le: "totalRecipients (b_ContactIDs bcast)
          (fst (ContactIDsForGroupIDs env (b_GroupIDs bcast))) urnMap \<le> 2 \<longrightarrow> card ?D \<le> 2"
    by (simp add: totalRecipients_def)
  from t have ne: "cr_tasks (CreateBroadcastBatches env bcast) \<noteq> []" by simp
  from all q le ne show ?thesis by simp
qed

theorem C1_queue_by_contact_ids_witness:
  "GetOrgAssets okCollaborators (b_OrgID contacts250) = Inr (OrgAssets 1)
   \<and> card (set (b_ContactIDs contacts250)
           \<union> set (fst (ContactIDsForGroupIDs okCollaborators (b_GroupIDs contacts250)))) = 250
   \<and> t_queue ` set (cr_tasks (CreateBroadcastBatches okCollaborators contacts250))
       = {BatchQueue}"
proof -
  have c: "card (set (b_ContactIDs contacts250)
           \<union> set (fst (ContactIDsForGroupIDs okCollaborators (b_GroupIDs contacts250)))) = 250"
    by (simp add: contacts250_def okCollaborators_def card_image)
  have o: "GetOrgAssets okCollaborators (b_OrgID contacts250) = Inr (OrgAssets 1)"
    by (simp add: contacts250_def okCollaborators_def)
  have s: "GetSessionAssets okCollaborators (OrgAssets 1) = Inr (SessionAssets (OrgAssets 1))"
    by (simp add: okCollaborators_def)
  have u: "ContactIDsFromURNs okCollaborators (OrgAssets 1) (SessionAssets (OrgAssets 1))
             (b_URNs contacts250) = Inr []"
    by (simp add: okCollaborators_def)
  from C1_queue_by_contact_ids [OF o s u] c
  have "cr_tasks (CreateBroadcastBatches okCollaborators contacts250) \<noteq> []"
    and "\<forall>t \<in> set (cr_tasks (CreateBroadcastBatches okCollaborators contacts250)).
           t_queue t = BatchQueue"
    by simp_all
  then have "t_queue ` set (cr_tasks (CreateBroadcastBatches okCollaborators contacts250))
       = {BatchQueue}"
    by (cases "cr_tasks (CreateBroadcastBatches okCollaborators contacts250)") auto
  with c o show ?thesis
    by simp
qed

text \<open>
  The claim C1 as stated fails: two explicit contacts and one address that resolves to a
  third contact make three recipients, and the only batch is put on the handler queue.
\<close>

theorem C1_counterexample:
  "ContactIDsFromURNs resolvesContactThree (OrgAssets 1) (SessionAssets (OrgAssets 1))
       (b_URNs contactsOneTwo) = Inr [(''tel:+250788000003'', 3)]
   \<and> totalRecipients (b_ContactIDs contactsOneTwo)
        (fst (ContactIDsForGroupIDs resolvesContactThree (b_GroupIDs contactsOneTwo)))
        [(''tel:+250788000003'', 3)] = 3
   \<and> map t_queue (cr_tasks (CreateBroadcastBatches resolvesContactThree contactsOneTwo))
       = [HandlerQueue]"
  by (simp add: CreateBroadcastBatches_def resolvesContactThree_def contactsOneTwo_def
      okCollaborators_def setTrue_def queueBatch_def rangeKeys_def Let_def startBatchSize_def
      totalRecipients_def)

text \<open>
  The tasks the worker issues do not depend on what the broker answers: a refused
  \<open>AddTask\<close> changes neither the batch being filled nor the batches that follow.
\<close>

lemma queueBatch_tasks_indep:
  assumes "qs_tasks st = qs_tasks st'" "qs_contacts st = qs_contacts st'"
  shows "qs_tasks (queueBatch (env\<lparr>AddTask := broker\<rparr>) bcast q R U isLast st)
           = qs_tasks (queueBatch env bcast q R U isLast st')
       \<and> qs_contacts (queueBatch (env\<lparr>AddTask := broker\<rparr>) bcast q R U isLast st)
           = qs_contacts (queueBatch env bcast q R U isLast st')"
  using assms by (simp add: queueBatch_def Let_def)

lemma batchLoop_tasks_indep:
  assumes "qs_tasks st = qs_tasks st'" "qs_contacts st = qs_contacts st'"
  shows "qs_tasks (batchLoop (queueBatch (env\<lparr>AddTask := broker\<rparr>) bcast q R U) cs st)
           = qs_tasks (batchLoop (queueBatch env bcast q R U) cs st')
       \<and> qs_contacts (batchLoop (queueBatch (env\<lparr>AddTask := broker\<rparr>) bcast q R U) cs st)
           = qs_contacts (batchLoop (queueBatch env bcast q R U) cs st')"
  using assms
proof (induction cs arbitrary: st st')
  case Nil
  then show ?case by simp
next
  case (Cons c cs)
  let ?qb = "queueBatch (env\<lparr>AddTask := broker\<rparr>) bcast q R U"
  let ?qb' = "queueBatch env bcast q R U"
  let ?s1 = "if length (qs_contacts st) = startBatchSize then ?qb False st else st"
  let ?s1' = "if length (qs_contacts st') = startBatchSize then ?qb' False st' else st'"
  have e: "qs_tasks ?s1 = qs_tasks ?s1'" "qs_contacts ?s1 = qs_contacts ?s1'"
    using queueBatch_tasks_indep [OF Cons.prems, where env = env and broker = broker
        and bcast = bcast and q = q and R = R and U = U and isLast = False] Cons.prems
    by simp_all
  have "qs_tasks (?s1\<lparr>qs_contacts := qs_contacts ?s1 @ [c]\<rparr>)
          = qs_tasks (?s1'\<lparr>qs_contacts := qs_contacts ?s1' @ [c]\<rparr>)"
    and "qs_contacts (?s1\<lparr>qs_contacts := qs_contacts ?s1 @ [c]\<rparr>)
          = qs_contacts (?s1'\<lparr>qs_contacts := qs_contacts ?s1' @ [c]\<rparr>)"
    using e by simp_all
  from Cons.IH [OF this] show ?case
    by (simp add: Let_def)
qed

lemma explicitAndGroup_broker:
  "explicitAndGroup (env\<lparr>AddTask := broker\<rparr>) bcast = explicitAndGroup env bcast"
  by (simp add: explicitAndGroup_def)

lemma CreateBroadcastBatches_tasks_indep:
  assumes "GetOrgAssets env (b_OrgID bcast) = Inr org"
    and "GetSessionAssets env org = Inr sa"
    and "ContactIDsFromURNs env org sa (b_URNs bcast) = Inr um"
  shows "cr_tasks (CreateBroadcastBatches (env\<lparr>AddTask := broker\<rparr>) bcast)
           = cr_tasks (CreateBroadcastBatches env bcast)"
proof -
  obtain C' R U where u: "urnLoop um (explicitAndGroup env bcast, [], []) = (C', R, U)"
    by (cases "urnLoop um (explicitAndGroup env bcast, [], [])") auto
  let ?env = "env\<lparr>AddTask := broker\<rparr>"
  have a: "GetOrgAssets ?env (b_OrgID bcast) = Inr org" "GetSessionAssets ?env org = Inr sa"
    "ContactIDsFromURNs ?env org sa (b_URNs bcast) = Inr um"
    using assms by simp_all
  have u': "urnLoop um (explicitAndGroup ?env bcast, [], []) = (C', R, U)"
    using u by (simp add: explicitAndGroup_broker)
  have q: "chosenQueue ?env bcast = chosenQueue env bcast"
    by (simp add: chosenQueue_def explicitAndGroup_broker)
  let ?st0 = "\<lparr>qs_contacts = [], qs_err = None, qs_tasks = [], qs_logs = []\<rparr>"
  have r: "rangeContactIDs ?env = rangeContactIDs env" by simp
  from batchLoop_tasks_indep [where st = ?st0 and st' = ?st0 and env = env and broker = broker
      and bcast = bcast and q = "chosenQueue env bcast" and R = R and U = U
      and cs = "rangeKeys (rangeContactIDs env) C'"]
  have "qs_tasks (batchLoop (queueBatch ?env bcast (chosenQueue env bcast) R U)
                   (rangeKeys (rangeContactIDs env) C') ?st0)
          = qs_tasks (batchLoop (queueBatch env bcast (chosenQueue env bcast) R U)
                   (rangeKeys (rangeContactIDs env) C') ?st0)"
    and "qs_contacts (batchLoop (queueBatch ?env bcast (chosenQueue env bcast) R U)
                   (rangeKeys (rangeContactIDs env) C') ?st0)
          = qs_contacts (batchLoop (queueBatch env bcast (chosenQueue env bcast) R U)
                   (rangeKeys (rangeContactIDs env) C') ?st0)"
    by simp_all
  from queueBatch_tasks_indep [OF this, where env = env and broker = broker and bcast = bcast
      and q = "chosenQueue env bcast" and R = R and U = U and isLast = True]
  show ?thesis
    unfolding CreateBroadcastBatches_ok [OF assms u] CreateBroadcastBatches_ok [OF a u'] q r
    by (simp add: Let_def)
qed

text \<open>
  C3, as the code has it. Provided the lookup of the group members reports no error: a
  failure to load the org assets, to build the session assets or to resolve the addresses
  is returned to the caller, wrapped, before any batch is queued; when these succeed the
  worker returns no error whatever \<open>AddTask\<close> answers, each refused task leaves
  the line \<open>error while queuing broadcast batch\<close> in the log, and the remaining
  batches are still attempted: the tasks issued are the same as with any other broker, in
  particular one that accepts every task.
\<close>

theorem C3_error_returns:
  assumes "snd (ContactIDsForGroupIDs env (b_GroupIDs bcast)) = None"
  shows "(\<forall>e. GetOrgAssets env (b_OrgID bcast) = Inl e \<longrightarrow>
            cr_ret (CreateBroadcastBatches env bcast) = Some (Wrapf e ''error getting org assets'')
            \<and> cr_tasks (CreateBroadcastBatches env bcast) = [])
    \<and> (\<forall>org e. GetOrgAssets env (b_OrgID bcast) = Inr org \<longrightarrow>
            GetSessionAssets env org = Inl e \<longrightarrow>
            cr_ret (CreateBroadcastBatches env bcast)
              = Some (Wrapf e ''error getting session assets'')
            \<and> cr_tasks (CreateBroadcastBatches env bcast) = [])
    \<and> (\<forall>org sa e. GetOrgAssets env (b_OrgID bcast) = Inr org \<longrightarrow>
            GetSessionAssets env org = Inr sa \<longrightarrow>
            ContactIDsFromURNs env org sa (b_URNs bcast) = Inl e \<longrightarrow>
            cr_ret (CreateBroadcastBatches env bcast)
              = Some (Wrapf e ''error getting contact ids for urns'')
            \<and> cr_tasks (CreateBroadcastBatches env bcast) = [])
    \<and> (\<forall>org sa urnMap. GetOrgAssets env (b_OrgID bcast) = Inr org \<longrightarrow>
            GetSessionAssets env org = Inr sa \<longrightarrow>
            ContactIDsFromURNs env org sa (b_URNs bcast) = Inr urnMap \<longrightarrow>
            cr_ret (CreateBroadcastBatches env bcast) = None
            \<and> cr_logs (CreateBroadcastBatches env bcast)
                = addTaskLogs env (cr_tasks (CreateBroadcastBatches env bcast))
            \<and> (\<forall>i e. i < length (cr_tasks (CreateBroadcastBatches env bcast)) \<longrightarrow>
                  AddTask env i (cr_tasks (CreateBroadcastBatches env bcast) ! i) = Some e \<longrightarrow>
                  (e, ''error while queuing broadcast batch'')
                    \<in> set (cr_logs (CreateBroadcastBatches env bcast)))
            \<and> (\<forall>broker. cr_tasks (CreateBroadcastBatches (env\<lparr>AddTask := broker\<rparr>) bcast)
                  = cr_tasks (CreateBroadcastBatches env bcast)))"
proof -
  have p1: "cr_ret (CreateBroadcastBatches env bcast) = Some (Wrapf e ''error getting org assets'')
            \<and> cr_tasks (CreateBroadcastBatches env bcast) = []"
    if "GetOrgAssets env (b_OrgID bcast) = Inl e" for e
    using that by (simp add: CreateBroadcastBatches_def Let_def split_def)
  have p2: "cr_ret (CreateBroadcastBatches env bcast)
              = Some (Wrapf e ''error getting session assets'')
            \<and> cr_tasks (CreateBroadcastBatches env bcast) = []"
    if "GetOrgAssets env (b_OrgID bcast) = Inr org" "GetSessionAssets env org = Inl e" for org e
    using that by (simp add: CreateBroadcastBatches_def Let_def split_def)
  have p3: "cr_ret (CreateBroadcastBatches env bcast)
              = Some (Wrapf e ''error getting contact ids for urns'')
            \<and> cr_tasks (CreateBroadcastBatches env bcast) = []"
    if "GetOrgAssets env (b_OrgID bcast) = Inr org" "GetSessionAssets env org = Inr sa"
       "ContactIDsFromURNs env org sa (b_URNs bcast) = Inl e" for org sa e
    using that by (simp add: CreateBroadcastBatches_def Let_def split_def)
  have p4: "cr_ret (CreateBroadcastBatches env bcast) = None
            \<and> cr_logs (CreateBroadcastBatches env bcast)
                = addTaskLogs env (cr_tasks (CreateBroadcastBatches env bcast))
            \<and> (\<forall>i e. i < length (cr_tasks (CreateBroadcastBatches env bcast)) \<longrightarrow>
                  AddTask env i (cr_tasks (CreateBroadcastBatches env bcast) ! i) = Some e \<longrightarrow>
                  (e, ''error while queuing broadcast batch'')
                    \<in> set (cr_logs (CreateBroadcastBatches env bcast)))
            \<and> (\<forall>broker. cr_tasks (CreateBroadcastBatches (env\<lparr>AddTask := broker\<rparr>) bcast)
                  = cr_tasks (CreateBroadcastBatches env bcast))"
    if "GetOrgAssets env (b_OrgID bcast) = Inr org" "GetSessionAssets env org = Inr sa"
       "ContactIDsFromURNs env org sa (b_URNs bcast) = Inr urnMap" for org sa urnMap
  proof -
    note lg = CreateBroadcastBatches_logs [OF that]
    note ind = CreateBroadcastBatches_tasks_indep [OF that]
    have "(e, ''error while queuing broadcast batch'')
            \<in> set (cr_logs (CreateBroadcastBatches env bcast))"
      if "i < length (cr_tasks (CreateBroadcastBatches env bcast))"
         "AddTask env i (cr_tasks (CreateBroadcastBatches env bcast) ! i) = Some e" for i e
      using addTaskLogs_mem [OF that] lg by simp
    with lg ind show ?thesis by blast
  qed
  show ?thesis
    apply (intro conjI allI impI)
    using p1 p2 p3 p4 by blast+
qed

theorem C3_error_returns_witness:
  "snd (ContactIDsForGroupIDs orgAssetsDown (b_GroupIDs contactsOneTwo)) = None
   \<and> GetOrgAssets orgAssetsDown (b_OrgID contactsOneTwo) = Inl (Errorf ''no such org'')
   \<and> cr_ret (CreateBroadcastBatches orgAssetsDown contactsOneTwo)
       = Some (Wrapf (Errorf ''no such org'') ''error getting org assets'')
   \<and> snd (ContactIDsForGroupIDs okCollaborators (b_GroupIDs contacts250)) = None
   \<and> cr_ret (CreateBroadcastBatches brokerDown contacts250) = None
   \<and> cr_tasks (CreateBroadcastBatches brokerDown contacts250)
       = cr_tasks (CreateBroadcastBatches okCollaborators contacts250)"
proof -
  have g: "snd (ContactIDsForGroupIDs orgAssetsDown (b_GroupIDs contactsOneTwo)) = None"
    by (simp add: orgAssetsDown_def okCollaborators_def)
  have o: "GetOrgAssets orgAssetsDown (b_OrgID contactsOneTwo) = Inl (Errorf ''no such org'')"
    by (simp add: orgAssetsDown_def okCollaborators_def)
  have g': "snd (ContactIDsForGroupIDs okCollaborators (b_GroupIDs contacts250)) = None"
    by (simp add: okCollaborators_def)
  have gb: "snd (ContactIDsForGroupIDs brokerDown (b_GroupIDs contacts250)) = None"
    by (simp add: brokerDown_def okCollaborators_def)
  have ob: "GetOrgAssets brokerDown (b_OrgID contacts250) = Inr (OrgAssets 1)"
    by (simp add: brokerDown_def contacts250_def okCollaborators_def)
  have sb: "GetSessionAssets brokerDown (OrgAssets 1) = Inr (SessionAssets (OrgAssets 1))"
    by (simp add: brokerDown_def okCollaborators_def)
  have ub: "ContactIDsFromURNs brokerDown (OrgAssets 1) (SessionAssets (OrgAssets 1))
             (b_URNs contacts250) = Inr []"
    by (simp add: brokerDown_def okCollaborators_def)
  have b: "brokerDown\<lparr>AddTask := AddTask okCollaborators\<rparr> = okCollaborators"
    by (simp add: brokerDown_def)
  from C3_error_returns [OF gb] ob sb ub
  have "cr_ret (CreateBroadcastBatches brokerDown contacts250) = None"
    and "cr_tasks (CreateBroadcastBatches
            (brokerDown\<lparr>AddTask := AddTask okCollaborators\<rparr>) contacts250)
          = cr_tasks (CreateBroadcastBatches brokerDown contacts250)"
    by blast+
  with C3_error_returns [OF g] g o g' b show ?thesis
    by simp
qed

text \<open>
  The claim C3 as stated fails: the broker refuses the only task, the refusal is logged,
  and the worker returns no error.
\<close>

theorem C3_counterexample:
  "AddTask brokerDown 0
       (lastTask contactsOneTwo HandlerQueue [1, 2] []) = Some (Errorf ''connection refused'')
   \<and> cr_tasks (CreateBroadcastBatches brokerDown contactsOneTwo)
       = [lastTask contactsOneTwo HandlerQueue [1, 2] []]
   \<and> cr_logs (CreateBroadcastBatches brokerDown contactsOneTwo)
       = [(Errorf ''connection refused'', ''error while queuing broadcast batch'')]
   \<and> cr_ret (CreateBroadcastBatches brokerDown contactsOneTwo) = None"
  by (simp add: CreateBroadcastBatches_def brokerDown_def contactsOneTwo_def
      okCollaborators_def setTrue_def queueBatch_def rangeKeys_def Let_def startBatchSize_def
      lastTask_def)

text \<open>
  C5. When the lookups succeed and a contact id is both among the explicit contacts or
  group members and the owner of one of the broadcast's addresses, then no batch that is
  not the last contains it, only the final batch is flagged is-last, the contact list of
  that batch contains the id exactly once, and its address map gives the id an address
  that resolved to it.
\<close>

theorem C5_repeated_contact_in_last_batch:
  assumes "GetOrgAssets env (b_OrgID bcast) = Inr org"
    and "GetSessionAssets env org = Inr sa"
    and "ContactIDsFromURNs env org sa (b_URNs bcast) = Inr urnMap"
    and "cid \<in> set (b_ContactIDs bcast) \<union> set (fst (ContactIDsForGroupIDs env (b_GroupIDs bcast)))"
    and "cid \<in> snd ` set urnMap"
  shows "(\<forall>t \<in> set (cr_tasks (CreateBroadcastBatches env bcast)).
            \<not> bb_IsLast (t_batch t) \<longrightarrow> cid \<notin> set (bb_ContactIDs (t_batch t)))
    \<and> (\<forall>t \<in> set (butlast (cr_tasks (CreateBroadcastBatches env bcast))).
            \<not> bb_IsLast (t_batch t))
    \<and> bb_IsLast (t_batch (last (cr_tasks (CreateBroadcastBatches env bcast))))
    \<and> count_list (bb_ContactIDs (t_batch (last (cr_tasks (CreateBroadcastBatches env bcast)))))
         cid = 1
    \<and> (\<exists>a. map_of (bb_URNs (t_batch (last (cr_tasks (CreateBroadcastBatches env bcast)))))
               cid = Some a
            \<and> (a, cid) \<in> set urnMap)"
proof -
  let ?D = "set (b_ContactIDs bcast) \<union> set (fst (ContactIDsForGroupIDs env (b_GroupIDs bcast)))"
  let ?A = "snd ` set urnMap"
  let ?ts = "cr_tasks (CreateBroadcastBatches env bcast)"
  let ?q = "chosenQueue env bcast"
  show ?thesis
  proof (rule fan_out_structure [OF assms(1-3)])
  fix chunks rem reps urns
  assume t: "?ts = map (plainTask bcast ?q) chunks @ [lastTask bcast ?q (rem @ reps) urns]"
    and d1: "distinct (concat chunks @ rem)"
    and s1: "set (concat chunks @ rem) = ?D - ?A"
    and l: "\<forall>ch \<in> set chunks. length ch = startBatchSize"
    and b: "length rem \<le> startBatchSize"
    and n: "concat chunks @ rem \<noteq> [] \<longrightarrow> rem \<noteq> []"
    and d2: "distinct reps"
    and s2: "set reps = ?D \<inter> ?A"
    and k: "fst ` set urns = ?A"
    and a: "\<forall>cid a. map_of urns cid = Some a \<longrightarrow> (a, cid) \<in> set urnMap"
  from s1 assms(5) have notin: "cid \<notin> set (concat chunks)" "cid \<notin> set rem"
    by auto
  from s2 assms(4,5) have inreps: "cid \<in> set reps" by simp
  have last_t: "last ?ts = lastTask bcast ?q (rem @ reps) urns"
    unfolding t by simp
  have butlast_t: "butlast ?ts = map (plainTask bcast ?q) chunks"
    unfolding t by simp
  have p2: "\<forall>t \<in> set (butlast ?ts). \<not> bb_IsLast (t_batch t)"
    unfolding butlast_t by (auto simp: plainTask_def CreateBatch_def)
  have p3: "bb_IsLast (t_batch (last ?ts))"
    unfolding last_t by (simp add: lastTask_def SetURNs_def SetIsLast_def)
  have p1: "\<forall>t \<in> set ?ts. \<not> bb_IsLast (t_batch t) \<longrightarrow> cid \<notin> set (bb_ContactIDs (t_batch t))"
    unfolding t using notin(1)
    by (auto simp: plainTask_def lastTask_def CreateBatch_def SetURNs_def SetIsLast_def)
  have "count_list (rem @ reps) cid = 1"
    using notin(2) count_list_distinct [OF d2 inreps] by (simp add: count_list_0_iff)
  then have p4: "count_list (bb_ContactIDs (t_batch (last ?ts))) cid = 1"
    unfolding last_t by (simp add: lastTask_def SetURNs_def SetIsLast_def CreateBatch_def)
  from k assms(5) have "cid \<in> fst ` set urns" by simp
  then obtain x where "map_of urns cid = Some x"
    by (metis domD dom_map_of_conv_image_fst)
  with a have "map_of urns cid = Some x \<and> (x, cid) \<in> set urnMap" by blast
  then have p5: "\<exists>a. map_of (bb_URNs (t_batch (last ?ts))) cid = Some a \<and> (a, cid) \<in> set urnMap"
    unfolding last_t by (auto simp: lastTask_def SetURNs_def SetIsLast_def CreateBatch_def)
  from p1 p2 p3 p4 p5 show ?thesis by blast
  qed
qed

theorem C5_repeated_contact_in_last_batch_witness:
  "(3::int) \<in> set (b_ContactIDs contactsOneTwoThree)
   \<and> 3 \<in> snd ` set [(''tel:+250788000003'', 3::int)]
   \<and> count_list (bb_ContactIDs (t_batch (last (cr_tasks
         (CreateBroadcastBatches resolvesContactThree contactsOneTwoThree))))) 3 = 1
   \<and> (\<exists>a. map_of (bb_URNs (t_batch (last (cr_tasks
         (CreateBroadcastBatches resolvesContactThree contactsOneTwoThree))))) 3 = Some a
          \<and> (a, 3) \<in> set [(''tel:+250788000003'', 3::int)])"
proof -
  have o: "GetOrgAssets resolvesContactThree (b_OrgID contactsOneTwoThree) = Inr (OrgAssets 1)"
    by (simp add: contactsOneTwoThree_def resolvesContactThree_def okCollaborators_def)
  have s: "GetSessionAssets resolvesContactThree (OrgAssets 1) = Inr (SessionAssets (OrgAssets 1))"
    by (simp add: resolvesContactThree_def okCollaborators_def)
  have u: "ContactIDsFromURNs resolvesContactThree (OrgAssets 1) (SessionAssets (OrgAssets 1))
             (b_URNs contactsOneTwoThree) = Inr [(''tel:+250788000003'', 3)]"
    by (simp add: resolvesContactThree_def okCollaborators_def)
  have m: "(3::int) \<in> set (b_ContactIDs contactsOneTwoThree)
             \<union> set (fst (ContactIDsForGroupIDs resolvesContactThree
                             (b_GroupIDs contactsOneTwoThree)))"
    by (simp add: contactsOneTwoThree_def)
  have a: "(3::int) \<in> snd ` set [(''tel:+250788000003'', 3::int)]"
    by simp
  from C5_repeated_contact_in_last_batch [OF o s u m a] a show ?thesis
    by (simp add: contactsOneTwoThree_def)
qed

text \<open>
  C6. When the lookups succeed, the batches are: chunks of exactly 100 contacts, not
  flagged, followed by one final batch, flagged is-last, that holds the remainder (at
  most 100 contacts), then the repeated contacts, and the address map. The chunks and the
  remainder together list every contact that is not repeated exactly once. The final batch
  is there whatever the remainder is, and it is the only batch flagged is-last. For 250
  distinct contacts none of which owns an address of the broadcast the batches have
  sizes 100, 100 and 50 and only the third is flagged.
\<close>

theorem C6_fan_out_batches:
  assumes "GetOrgAssets env (b_OrgID bcast) = Inr org"
    and "GetSessionAssets env org = Inr sa"
    and "ContactIDsFromURNs env org sa (b_URNs bcast) = Inr urnMap"
  shows "(\<exists>chunks rem reps urns.
      map t_batch (cr_tasks (CreateBroadcastBatches env bcast))
        = map (CreateBatch bcast) chunks
          @ [SetURNs urns (SetIsLast True (CreateBatch bcast (rem @ reps)))]
    \<and> distinct (concat chunks @ rem)
    \<and> set (concat chunks @ rem)
        = (set (b_ContactIDs bcast) \<union> set (fst (ContactIDsForGroupIDs env (b_GroupIDs bcast))))
          - snd ` set urnMap
    \<and> (\<forall>ch \<in> set chunks. length ch = 100)
    \<and> length rem \<le> 100
    \<and> distinct reps
    \<and> set reps
        = (set (b_ContactIDs bcast) \<union> set (fst (ContactIDsForGroupIDs env (b_GroupIDs bcast))))
          \<inter> snd ` set urnMap
    \<and> fst ` set urns = snd ` set urnMap
    \<and> (\<forall>cid a. map_of urns cid = Some a \<longrightarrow> (a, cid) \<in> set urnMap))
   \<and> length (filter (\<lambda>t. bb_IsLast (t_batch t)) (cr_tasks (CreateBroadcastBatches env bcast))) = 1
   \<and> bb_IsLast (t_batch (last (cr_tasks (CreateBroadcastBatches env bcast))))
   \<and> (card (set (b_ContactIDs bcast) \<union> set (fst (ContactIDsForGroupIDs env (b_GroupIDs bcast))))
         = 250
       \<and> (set (b_ContactIDs bcast) \<union> set (fst (ContactIDsForGroupIDs env (b_GroupIDs bcast))))
           \<inter> snd ` set urnMap = {}
       \<longrightarrow> map (\<lambda>t. (length (bb_ContactIDs (t_batch t)), bb_IsLast (t_batch t)))
             (cr_tasks (CreateBroadcastBatches env bcast))
           = [(100, False), (100, False), (50, True)])"
proof -
  let ?D = "set (b_ContactIDs bcast) \<union> set (fst (ContactIDsForGroupIDs env (b_GroupIDs bcast)))"
  let ?A = "snd ` set urnMap"
  let ?ts = "cr_tasks (CreateBroadcastBatches env bcast)"
  let ?q = "chosenQueue env bcast"
  show ?thesis
  proof (rule fan_out_structure [OF assms])
  fix chunks rem reps urns
  assume t: "?ts = map (plainTask bcast ?q) chunks @ [lastTask bcast ?q (rem @ reps) urns]"
    and d1: "distinct (concat chunks @ rem)"
    and s1: "set (concat chunks @ rem) = ?D - ?A"
    and l: "\<forall>ch \<in> set chunks. length ch = startBatchSize"
    and b: "length rem \<le> startBatchSize"
    and n: "concat chunks @ rem \<noteq> [] \<longrightarrow> rem \<noteq> []"
    and d2: "distinct reps"
    and s2: "set reps = ?D \<inter> ?A"
    and k: "fst ` set urns = ?A"
    and a: "\<forall>cid a. map_of urns cid = Some a \<longrightarrow> (a, cid) \<in> set urnMap"
  have bt: "map t_batch ?ts = map (CreateBatch bcast) chunks
          @ [SetURNs urns (SetIsLast True (CreateBatch bcast (rem @ reps)))]"
    unfolding t by (simp add: plainTask_def lastTask_def)
  have part1: "\<exists>chunks rem reps urns.
      map t_batch ?ts = map (CreateBatch bcast) chunks
          @ [SetURNs urns (SetIsLast True (CreateBatch bcast (rem @ reps)))]
    \<and> distinct (concat chunks @ rem)
    \<and> set (concat chunks @ rem) = ?D - ?A
    \<and> (\<forall>ch \<in> set chunks. length ch = 100)
    \<and> length rem \<le> 100
    \<and> distinct reps
    \<and> set reps = ?D \<inter> ?A
    \<and> fst ` set urns = ?A
    \<and> (\<forall>cid a. map_of urns cid = Some a \<longrightarrow> (a, cid) \<in> set urnMap)"
    apply (rule exI [of _ chunks])
    apply (rule exI [of _ rem])
    apply (rule exI [of _ reps])
    apply (rule exI [of _ urns])
    using bt d1 s1 l b d2 s2 k a unfolding startBatchSize_def by blast
  have nl: "filter (\<lambda>t. bb_IsLast (t_batch t)) (map (plainTask bcast ?q) chunks) = []"
    by (induction chunks) (simp_all add: plainTask_def CreateBatch_def)
  have part2: "length (filter (\<lambda>t. bb_IsLast (t_batch t)) ?ts) = 1"
    unfolding t by (simp add: nl) (simp add: lastTask_def SetURNs_def SetIsLast_def)
  have part3: "bb_IsLast (t_batch (last ?ts))"
    unfolding t by (simp add: lastTask_def SetURNs_def SetIsLast_def)
  have part4: "map (\<lambda>t. (length (bb_ContactIDs (t_batch t)), bb_IsLast (t_batch t))) ?ts
           = [(100, False), (100, False), (50, True)]"
    if c: "card ?D = 250" and e: "?D \<inter> ?A = {}"
  proof -
    from e have "?D - ?A = ?D" by blast
    with s1 d1 c have len: "length (concat chunks @ rem) = 250"
      using distinct_card [OF d1] by simp
    have "concat chunks @ rem \<noteq> []"
    proof
      assume "concat chunks @ rem = []"
      then have "length (concat chunks @ rem) = 0" by (simp only: list.size)
      with len show False by simp
    qed
    with n have r1: "rem \<noteq> []" by blast
    from len length_concat_uniform [OF l] have
      eq: "100 * length chunks + length rem = 250"
      by (simp add: startBatchSize_def)
    from r1 have pos: "1 \<le> length rem" by (cases rem) simp_all
    from b have b': "length rem \<le> 100" by (simp add: startBatchSize_def)
    from eq b' pos have "length chunks = 2" and lr: "length rem = 50"
      by arith+
    then obtain c1 c2 where ch: "chunks = [c1, c2]"
      by (metis (no_types, opaque_lifting) One_nat_def Suc_1 length_0_conv length_Suc_conv)
    with l have "length c1 = 100" "length c2 = 100"
      by (simp_all add: startBatchSize_def)
    moreover from s2 e have "reps = []" by simp
    ultimately show ?thesis
      unfolding t ch using lr
      by (simp add: plainTask_def lastTask_def CreateBatch_def SetURNs_def SetIsLast_def)
  qed
  from part1 part2 part3 part4 show ?thesis by blast
  qed
qed

theorem C6_fan_out_batches_witness:
  "card (set (b_ContactIDs contacts250)
         \<union> set (fst (ContactIDsForGroupIDs okCollaborators (b_GroupIDs contacts250)))) = 250
   \<and> map (\<lambda>t. (length (bb_ContactIDs (t_batch t)), bb_IsLast (t_batch t)))
         (cr_tasks (CreateBroadcastBatches okCollaborators contacts250))
       = [(100, False), (100, False), (50, True)]"
proof -
  have c: "card (set (b_ContactIDs contacts250)
           \<union> set (fst (ContactIDsForGroupIDs okCollaborators (b_GroupIDs contacts250)))) = 250"
    by (simp add: contacts250_def okCollaborators_def card_image)
  have o: "GetOrgAssets okCollaborators (b_OrgID contacts250) = Inr (OrgAssets 1)"
    by (simp add: contacts250_def okCollaborators_def)
  have s: "GetSessionAssets okCollaborators (OrgAssets 1) = Inr (SessionAssets (OrgAssets 1))"
    by (simp add: okCollaborators_def)
  have u: "ContactIDsFromURNs okCollaborators (OrgAssets 1) (SessionAssets (OrgAssets 1))
             (b_URNs contacts250) = Inr []"
    by (simp add: okCollaborators_def)
  from C6_fan_out_batches [OF o s u] c show ?thesis
    by simp
qed

section \<open>Theorems: SendBroadcastBatch\<close>

lemma sendDeferred_marks:
  "filter isMarkSent (sendDeferred env bcast) =
     (if bb_IsLast bcast then [MarkBroadcastSentCall (bb_BroadcastID bcast)] else [])"
  by (simp add: sendDeferred_def isMarkSent_def split: option.splits)

lemma sendBody_marks: "filter isMarkSent (snd (sendBody env bcast)) = []"
  by (simp add: sendBody_def isMarkSent_def split: sum.splits option.splits)

text \<open>
  C8. Whatever the collaborators answer, sending a batch flagged is-last calls
  \<open>MarkBroadcastSent\<close> exactly once, for the batch's broadcast, and sending a batch
  that is not flagged never calls it; the value returned is the one of the body, so a
  failure to load the org assets, to build the session assets, to create the messages or
  to queue them to the courier is returned, wrapped, all the same.
\<close>

theorem C8_mark_sent_on_every_exit:
  "filter isMarkSent (snd (SendBroadcastBatch env bcast)) =
     (if bb_IsLast bcast then [MarkBroadcastSentCall (bb_BroadcastID bcast)] else [])
   \<and> (\<forall>err. GetOrgAssets env (bb_OrgID bcast) = Inl err \<longrightarrow>
        fst (SendBroadcastBatch env bcast) = Some (Wrapf err ''error getting org assets''))
   \<and> (\<forall>org err. GetOrgAssets env (bb_OrgID bcast) = Inr org \<longrightarrow>
        GetSessionAssets env org = Inl err \<longrightarrow>
        fst (SendBroadcastBatch env bcast) = Some (Wrapf err ''error getting session assets''))
   \<and> (\<forall>org sa err. GetOrgAssets env (bb_OrgID bcast) = Inr org \<longrightarrow>
        GetSessionAssets env org = Inr sa \<longrightarrow>
        CreateBroadcastMessages env org sa bcast = Inl err \<longrightarrow>
        fst (SendBroadcastBatch env bcast) = Some (Wrapf err ''error creating broadcast messages''))
   \<and> (\<forall>org sa msgs err. GetOrgAssets env (bb_OrgID bcast) = Inr org \<longrightarrow>
        GetSessionAssets env org = Inr sa \<longrightarrow>
        CreateBroadcastMessages env org sa bcast = Inr msgs \<longrightarrow>
        QueueMessages env msgs = Some err \<longrightarrow>
        fst (SendBroadcastBatch env bcast) = Some (Wrapf err ''error queuing broadcast messages''))
   \<and> (\<forall>org sa msgs. GetOrgAssets env (bb_OrgID bcast) = Inr org \<longrightarrow>
        GetSessionAssets env org = Inr sa \<longrightarrow>
        CreateBroadcastMessages env org sa bcast = Inr msgs \<longrightarrow>
        QueueMessages env msgs = None \<longrightarrow>
        fst (SendBroadcastBatch env bcast) = None)"
proof -
  have m: "filter isMarkSent (snd (SendBroadcastBatch env bcast)) =
     (if bb_IsLast bcast then [MarkBroadcastSentCall (bb_BroadcastID bcast)] else [])"
    using sendBody_marks [of env bcast] sendDeferred_marks [of env bcast]
    by (simp add: SendBroadcastBatch_def split_def Let_def)
  have r: "fst (SendBroadcastBatch env bcast) = fst (sendBody env bcast)"
    by (simp add: SendBroadcastBatch_def split_def Let_def)
  show ?thesis
    unfolding r using m by (simp add: sendBody_def)
qed

theorem C8_mark_sent_on_every_exit_witness:
  "bb_IsLast lastBatch
   \<and> CreateBroadcastMessages messagesDown (OrgAssets 1) (SessionAssets (OrgAssets 1)) lastBatch
       = Inl (Errorf ''insert failed'')
   \<and> filter isMarkSent (snd (SendBroadcastBatch messagesDown lastBatch))
       = [MarkBroadcastSentCall 5]
   \<and> fst (SendBroadcastBatch messagesDown lastBatch)
       = Some (Wrapf (Errorf ''insert failed'') ''error creating broadcast messages'')"
proof -
  have o: "GetOrgAssets messagesDown (bb_OrgID lastBatch) = Inr (OrgAssets 1)"
    by (simp add: messagesDown_def okCollaborators_def lastBatch_def)
  have s: "GetSessionAssets messagesDown (OrgAssets 1) = Inr (SessionAssets (OrgAssets 1))"
    by (simp add: messagesDown_def okCollaborators_def)
  have m: "CreateBroadcastMessages messagesDown (OrgAssets 1) (SessionAssets (OrgAssets 1))
             lastBatch = Inl (Errorf ''insert failed'')"
    by (simp add: messagesDown_def okCollaborators_def)
  have l: "bb_IsLast lastBatch" "bb_BroadcastID lastBatch = 5"
    by (simp_all add: lastBatch_def)
  from C8_mark_sent_on_every_exit [of messagesDown lastBatch] o s m l show ?thesis
    by auto
qed

section \<open>Theorems: Go's integers and the calendar\<close>

text \<open>
  Conversions to \<open>int64\<close> and \<open>uint64\<close> leave a value in range alone and commute with
  sums and products, so a chain of wrapping operations is the conversion of the exact
  result. \<open>Date\<close> counts the days that \<open>absDate\<close> took apart: the year, month and day
  of a count of seconds since the absolute epoch lead back to its day number.
\<close>

lemma i64_id: "fitsInt64 x \<Longrightarrow> i64 x = x"
  by (simp add: fitsInt64_def i64_def)

lemma u64_id: "0 \<le> x \<Longrightarrow> x < 2 ^ 64 \<Longrightarrow> u64 x = x"
  by (simp add: u64_def)

lemma fitsInt64_i64: "fitsInt64 (i64 x)"
proof -
  have "0 \<le> (x + 2 ^ 63) mod (2 ^ 64 :: int)" "(x + 2 ^ 63) mod (2 ^ 64 :: int) < 2 ^ 64"
    by simp_all
  then show ?thesis
    unfolding fitsInt64_def i64_def by simp
qed

lemma u64_bounds: "0 \<le> u64 x" "u64 x < 2 ^ 64"
  by (simp_all add: u64_def)

lemma wrap_add_left:
  fixes x y K M :: int
  shows "((x + K) mod M - K + y + K) mod M = (x + y + K) mod M"
proof -
  have "(x + K) mod M - K + y + K = (x + K) mod M + y" by simp
  then have "((x + K) mod M - K + y + K) mod M = ((x + K) mod M + y) mod M" by simp
  also have "\<dots> = (x + K + y) mod M" by (rule mod_add_left_eq)
  also have "x + K + y = x + y + K" by simp
  finally show ?thesis .
qed

lemma i64_add_left: "i64 (i64 x + y) = i64 (x + y)"
  unfolding i64_def by (simp only: wrap_add_left)

lemma i64_add_right: "i64 (x + i64 y) = i64 (x + y)"
  using i64_add_left [of y x] by (simp add: add.commute)

lemma i64_diff_left: "i64 (i64 x - y) = i64 (x - y)"
  using i64_add_left [of x "- y"] by simp

lemma i64_u64: "i64 (u64 x) = i64 x"
proof -
  have "(x mod 2 ^ 64 + 2 ^ 63) mod (2 ^ 64 :: int) = (x + 2 ^ 63) mod 2 ^ 64"
    by (rule mod_add_left_eq)
  then show ?thesis by (simp add: i64_def u64_def)
qed

lemma u64_i64: "u64 (i64 x) = u64 x"
proof -
  have "((x + 2 ^ 63) mod 2 ^ 64 - 2 ^ 63) mod (2 ^ 64 :: int) = (x + 2 ^ 63 - 2 ^ 63) mod 2 ^ 64"
    by (rule mod_diff_left_eq)
  then show ?thesis by (simp add: i64_def u64_def)
qed

lemma u64_add_left: "u64 (u64 x + y) = u64 (x + y)"
  unfolding u64_def by (rule mod_add_left_eq)

lemma u64_add_right: "u64 (x + u64 y) = u64 (x + y)"
  unfolding u64_def by (rule mod_add_right_eq)

lemma u64_mult_left: "u64 (u64 x * y) = u64 (x * y)"
  unfolding u64_def by (rule mod_mult_left_eq)

lemma norm_id: "0 \<le> lo \<Longrightarrow> lo < base \<Longrightarrow> norm hi lo base = (hi, lo)"
  by (simp add: norm_def)

lemma divmod_facts:
  fixes x k :: int
  assumes "0 < k"
  shows "x = k * (x div k) + x mod k" "0 \<le> x mod k" "x mod k < k"
  using assms by simp_all

lemma div_unique_pos:
  fixes n k q r :: int
  assumes "n = k * q + r" "0 \<le> r" "r < k"
  shows "n div k = q" "n mod k = r"
  using assms by simp_all

lemma monthDay_table_leap: "list_all (monthDayOk 4) [0..365]"
  by code_simp

lemma monthDay_table_common: "list_all (monthDayOk 1) [0..364]"
  by code_simp

lemma monthDayOk_cong: "isLeap y = isLeap y' \<Longrightarrow> monthDayOk y yd = monthDayOk y' yd"
  by (simp add: monthDayOk_def monthDay_def)

lemma monthDay_correct:
  assumes "0 \<le> yd" "yd < (if isLeap year then 366 else 365)"
  shows "monthDayOk year yd"
proof (cases "isLeap year")
  case True
  have "isLeap 4" by (simp add: isLeap_def)
  with True have e: "monthDayOk year yd = monthDayOk 4 yd"
    by (intro monthDayOk_cong) simp
  from True assms have "yd \<in> set [0..365]" by simp
  with monthDay_table_leap have "monthDayOk 4 yd"
    unfolding list_all_iff by blast
  with e show ?thesis by simp
next
  case False
  have "\<not> isLeap 1" by (simp add: isLeap_def)
  with False have e: "monthDayOk year yd = monthDayOk 1 yd"
    by (intro monthDayOk_cong) simp
  from False assms have "yd \<in> set [0..364]" by simp
  with monthDay_table_common have "monthDayOk 1 yd"
    unfolding list_all_iff by blast
  with e show ?thesis by simp
qed

lemma time_constants:
  "secondsPerDay = 86400" "secondsPerHour = 3600" "secondsPerMinute = 60"
  "daysPer400Years = 146097" "daysPer100Years = 36524" "daysPer4Years = 1461"
  by (simp_all add: secondsPerDay_def secondsPerHour_def secondsPerMinute_def
      daysPer400Years_def daysPer100Years_def daysPer4Years_def)

lemma absYear_digits:
  fixes A :: int
  assumes A: "0 \<le> A" "A < 2 ^ 64"
  obtains a b c e yd where
    "absYear A = (400 * a + 100 * b + 4 * c + e + absoluteZeroYear, yd)"
    and "0 \<le> a" "a \<le> 1461391283"
    and "0 \<le> b" "b \<le> 3"
    and "0 \<le> c" "c \<le> 24"
    and "0 \<le> e" "e \<le> 3"
    and "0 \<le> yd" "yd \<le> 365"
    and "yd = 365 \<longrightarrow> e = 3 \<and> (c \<noteq> 24 \<or> b = 3)"
    and "146097 * a + 36524 * b + 1461 * c + 365 * e + yd = A div 86400"
proof -
  define d0 where "d0 = A div secondsPerDay"
  define a where "a = d0 div daysPer400Years"
  define d1 where "d1 = d0 - daysPer400Years * a"
  define q1 where "q1 = d1 div daysPer100Years"
  define b where "b = q1 - q1 div 4"
  define d2 where "d2 = d1 - daysPer100Years * b"
  define c where "c = d2 div daysPer4Years"
  define d3 where "d3 = d2 - daysPer4Years * c"
  define q3 where "q3 = d3 div 365"
  define e where "e = q3 - q3 div 4"
  define yd where "yd = d3 - 365 * e"
  have y0: "absYear A = (i64 (i64 (400 * a + 100 * b + 4 * c + e) + absoluteZeroYear), yd)"
    unfolding absYear_def Let_def a_def b_def c_def e_def yd_def d3_def d2_def d1_def d0_def
      q1_def q3_def
    by (rule refl)
  note d0_def = d0_def [unfolded time_constants]
  note a_def = a_def [unfolded time_constants]
  note d1_def = d1_def [unfolded time_constants]
  note q1_def = q1_def [unfolded time_constants]
  note d2_def = d2_def [unfolded time_constants]
  note c_def = c_def [unfolded time_constants]
  note d3_def = d3_def [unfolded time_constants]
  have d0b: "0 \<le> d0" "d0 \<le> 213503982334601"
  proof -
    from A(1) show "0 \<le> d0" unfolding d0_def by simp
    have "A = 86400 * d0 + A mod 86400" "0 \<le> A mod 86400"
      unfolding d0_def by simp_all
    with A(2) show "d0 \<le> 213503982334601" by simp
  qed
  have f0: "d0 = 146097 * a + d1" "0 \<le> d1" "d1 < 146097"
  proof -
    have "d0 = 146097 * a + d0 mod 146097" "0 \<le> d0 mod 146097" "d0 mod 146097 < 146097"
      unfolding a_def by simp_all
    then show "d0 = 146097 * a + d1" "0 \<le> d1" "d1 < 146097"
      unfolding d1_def by linarith+
  qed
  from f0 d0b have ab: "0 \<le> a" "a \<le> 1461391283" by linarith+
  have f1: "d1 = 36524 * q1 + d1 mod 36524" "0 \<le> d1 mod 36524" "d1 mod 36524 < 36524"
    unfolding q1_def by simp_all
  from f0(2,3) f1 have q1b: "0 \<le> q1" "q1 \<le> 4" by linarith+
  then consider "q1 \<le> 3" | "q1 = 4" by linarith
  then have bfacts: "0 \<le> b \<and> b \<le> 3 \<and> 0 \<le> d2 \<and> d2 \<le> 36524 \<and> (b < 3 \<longrightarrow> d2 < 36524)"
  proof cases
    case 1
    with q1b(1) have "q1 div 4 = 0" by simp
    then have "b = q1" unfolding b_def by simp
    with 1 q1b(1) f1 show ?thesis unfolding d2_def by linarith
  next
    case 2
    then have "b = 3" unfolding b_def by simp
    with 2 f0(3) f1 show ?thesis unfolding d2_def by linarith
  qed
  then have bb: "0 \<le> b" "b \<le> 3"
    and d2b: "0 \<le> d2" "d2 \<le> 36524" "b < 3 \<longrightarrow> d2 < 36524"
    by simp_all
  have f2: "d2 = 1461 * c + d3" "0 \<le> d3" "d3 < 1461"
  proof -
    have "d2 = 1461 * c + d2 mod 1461" "0 \<le> d2 mod 1461" "d2 mod 1461 < 1461"
      unfolding c_def by simp_all
    then show "d2 = 1461 * c + d3" "0 \<le> d3" "d3 < 1461"
      unfolding d3_def by linarith+
  qed
  from d2b(1,2) f2 have cb: "0 \<le> c" "c \<le> 24" by linarith+
  have d3c: "d3 < 1460" if "c = 24" "b < 3"
    using that d2b(3) f2(1) by linarith
  have f3: "d3 = 365 * q3 + d3 mod 365" "0 \<le> d3 mod 365" "d3 mod 365 < 365"
    unfolding q3_def by simp_all
  from f2(2,3) f3 have q3b: "0 \<le> q3" "q3 \<le> 4" by linarith+
  then consider "q3 \<le> 3" | "q3 = 4" by linarith
  then have efacts: "0 \<le> e \<and> e \<le> 3 \<and> 0 \<le> yd \<and> yd \<le> 365 \<and> (yd = 365 \<longrightarrow> e = 3 \<and> d3 = 1460)"
  proof cases
    case 1
    with q3b(1) have "q3 div 4 = 0" by simp
    then have "e = q3" unfolding e_def by simp
    with 1 q3b(1) f3 show ?thesis unfolding yd_def by linarith
  next
    case 2
    then have "e = 3" unfolding e_def by simp
    with 2 f2(3) f3 show ?thesis unfolding yd_def by linarith
  qed
  then have eb: "0 \<le> e" "e \<le> 3" and ydb: "0 \<le> yd" "yd \<le> 365"
    and y365: "yd = 365 \<longrightarrow> e = 3 \<and> d3 = 1460"
    by simp_all
  have yd365: "yd = 365 \<longrightarrow> e = 3 \<and> (c \<noteq> 24 \<or> b = 3)"
  proof
    assume "yd = 365"
    with y365 have e3: "e = 3" and d: "d3 = 1460" by simp_all
    have "c \<noteq> 24 \<or> b = 3"
    proof (rule ccontr)
      assume "\<not> (c \<noteq> 24 \<or> b = 3)"
      with bb have "c = 24" "b < 3" by simp_all
      from d3c [OF this] d show False by simp
    qed
    with e3 show "e = 3 \<and> (c \<noteq> 24 \<or> b = 3)" by simp
  qed
  have tot: "146097 * a + 36524 * b + 1461 * c + 365 * e + yd = A div 86400"
    using f0(1) f2(1) unfolding d2_def yd_def d0_def by linarith
  define Y where "Y = 400 * a + 100 * b + 4 * c + e"
  have Yb: "0 \<le> Y" "Y \<le> 584556513599"
    unfolding Y_def using ab bb cb eb by linarith+
  then have "fitsInt64 Y" "fitsInt64 (Y + absoluteZeroYear)"
    by (simp_all add: fitsInt64_def absoluteZeroYear_def)
  then have "i64 (i64 Y + absoluteZeroYear) = Y + absoluteZeroYear"
    by (simp add: i64_id)
  with y0 have y: "absYear A = (400 * a + 100 * b + 4 * c + e + absoluteZeroYear, yd)"
    unfolding Y_def by simp
  from y ab bb cb eb ydb yd365 tot show ?thesis
    by (rule that)
qed

lemma isLeap_digits:
  fixes a b c e :: int
  assumes "0 \<le> b" "b \<le> 3" "0 \<le> c" "c \<le> 24" "0 \<le> e" "e \<le> 3"
  shows "isLeap (400 * a + 100 * b + 4 * c + e + absoluteZeroYear)
           = (e = 3 \<and> (c \<noteq> 24 \<or> b = 3))"
proof -
  define a' where "a' = a - 730692556"
  define y where "y = 400 * a + 100 * b + 4 * c + e + absoluteZeroYear"
  have y: "y = 400 * a' + 100 * b + 4 * c + e + 1"
    unfolding y_def a'_def absoluteZeroYear_def by simp
  show ?thesis
  proof (cases "e = 3")
    case e3: True
    have m4: "y mod 4 = 0"
      by (rule div_unique_pos(2) [of _ _ "100 * a' + 25 * b + c + 1"]) (use y e3 in auto)
    show ?thesis
    proof (cases "c = 24")
      case False
      have "y mod 100 = 4 * c + 4"
        by (rule div_unique_pos(2) [of _ _ "4 * a' + b"]) (use y e3 assms False in auto)
      with assms m4 e3 False show ?thesis
        unfolding y_def [symmetric] by (simp add: isLeap_def)
    next
      case c24: True
      have m100: "y mod 100 = 0"
        by (rule div_unique_pos(2) [of _ _ "4 * a' + b + 1"]) (use y e3 c24 in auto)
      show ?thesis
      proof (cases "b = 3")
        case True
        have "y mod 400 = 0"
          by (rule div_unique_pos(2) [of _ _ "a' + 1"]) (use y e3 c24 True in auto)
        with m4 e3 c24 True show ?thesis
          unfolding y_def [symmetric] by (simp add: isLeap_def)
      next
        case False
        have "y mod 400 = 100 * b + 100"
          by (rule div_unique_pos(2) [of _ _ "a'"]) (use y e3 c24 False assms in auto)
        with assms have "y mod 400 \<noteq> 0" by simp
        with m100 e3 c24 False show ?thesis
          unfolding y_def [symmetric] by (simp add: isLeap_def)
      qed
    qed
  next
    case False
    have "y mod 4 = e + 1"
      by (rule div_unique_pos(2) [of _ _ "100 * a' + 25 * b + c"]) (use y False assms in auto)
    with assms False show ?thesis
      unfolding y_def [symmetric] by (simp add: isLeap_def)
  qed
qed

lemma daysSinceAbsoluteEpoch_digits:
  fixes a b c e :: int
  assumes "0 \<le> a" "a \<le> 1461391283" "0 \<le> b" "b \<le> 3" "0 \<le> c" "c \<le> 24" "0 \<le> e" "e \<le> 3"
  shows "daysSinceAbsoluteEpoch (400 * a + 100 * b + 4 * c + e + absoluteZeroYear) m k
           = u64 (146097 * a + 36524 * b + 1461 * c + 365 * e
                   + daysBefore ! nat (m - 1)
                   + (if isLeap (400 * a + 100 * b + 4 * c + e + absoluteZeroYear) \<and> m \<ge> 3
                      then 1 else 0)
                   + (k - 1))"
proof -
  define Y where "Y = 400 * a + 100 * b + 4 * c + e"
  define year where "year = Y + absoluteZeroYear"
  have Yb: "0 \<le> Y" "Y \<le> 584556513599"
    unfolding Y_def using assms by linarith+
  then have "fitsInt64 Y" "Y < 2 ^ 64" by (simp_all add: fitsInt64_def)
  with Yb have y: "u64 (i64 (year - absoluteZeroYear)) = Y"
    unfolding year_def by (simp add: i64_id u64_id)
  have q400: "Y div 400 = a"
    by (rule div_unique_pos(1) [of _ _ _ "100 * b + 4 * c + e"]) (use Y_def assms in auto)
  define Y1 where "Y1 = 100 * b + 4 * c + e"
  have y1: "Y - 400 * a = Y1" unfolding Y_def Y1_def by simp
  have q100: "Y1 div 100 = b"
    by (rule div_unique_pos(1) [of _ _ _ "4 * c + e"]) (use Y1_def assms in auto)
  define Y2 where "Y2 = 4 * c + e"
  have y2: "Y1 - 100 * b = Y2" unfolding Y1_def Y2_def by simp
  have q4: "Y2 div 4 = c"
    by (rule div_unique_pos(1) [of _ _ _ e]) (use Y2_def assms in auto)
  have y3: "Y2 - 4 * c = e" unfolding Y2_def by simp
  have "daysSinceAbsoluteEpoch year m k
          = u64 (146097 * a + 36524 * b + 1461 * c + 365 * e
                   + daysBefore ! nat (m - 1)
                   + (if isLeap year \<and> m \<ge> 3 then 1 else 0)
                   + (k - 1))"
    unfolding daysSinceAbsoluteEpoch_def Let_def y q400 y1 q100 y2 q4 y3 time_constants
    by (simp add: u64_add_left u64_add_right u64_i64 add.assoc)
  then show ?thesis
    unfolding year_def Y_def by simp
qed

lemma daysSinceAbsoluteEpoch_absDate:
  fixes A :: int
  assumes A: "0 \<le> A" "A < 2 ^ 64" and ad: "absDate A = (y, m, d, yd)"
  shows "1 \<le> m" "m \<le> 12" "1 \<le> d" "d \<le> 31" "fitsInt64 y"
    and "daysSinceAbsoluteEpoch y m k = u64 (A div 86400 + (k - d))"
proof -
  obtain a b c e yd' where
    yz: "absYear A = (400 * a + 100 * b + 4 * c + e + absoluteZeroYear, yd')"
    and ab: "0 \<le> a" "a \<le> 1461391283"
    and bb: "0 \<le> b" "b \<le> 3"
    and cb: "0 \<le> c" "c \<le> 24"
    and eb: "0 \<le> e" "e \<le> 3"
    and ydb: "0 \<le> yd'" "yd' \<le> 365"
    and y365: "yd' = 365 \<longrightarrow> e = 3 \<and> (c \<noteq> 24 \<or> b = 3)"
    and tot: "146097 * a + 36524 * b + 1461 * c + 365 * e + yd' = A div 86400"
    by (rule absYear_digits [OF A])
  from ad yz have y: "y = 400 * a + 100 * b + 4 * c + e + absoluteZeroYear"
    and yd: "yd = yd'" and md: "monthDay y yd' = (m, d)"
    by (simp_all add: absDate_def Let_def split: prod.splits)
  note lp = isLeap_digits [OF bb cb eb, of a]
  have "yd' < (if isLeap y then 366 else 365)"
  proof (cases "yd' = 365")
    case True
    with y365 lp y show ?thesis by simp
  next
    case False
    with ydb show ?thesis by simp
  qed
  from monthDay_correct [OF ydb(1) this] md
  have ok: "1 \<le> m" "m \<le> 12" "1 \<le> d" "d \<le> 31"
    "daysBefore ! nat (m - 1) + (if isLeap y \<and> m \<ge> 3 then 1 else 0) + (d - 1) = yd'"
    by (simp_all add: monthDayOk_def)
  from ok show "1 \<le> m" "m \<le> 12" "1 \<le> d" "d \<le> 31" by simp_all
  have "0 \<le> 400 * a + 100 * b + 4 * c + e" "400 * a + 100 * b + 4 * c + e \<le> 584556513599"
    using ab bb cb eb by linarith+
  then show "fitsInt64 y"
    unfolding y by (simp add: fitsInt64_def absoluteZeroYear_def)
  have "146097 * a + 36524 * b + 1461 * c + 365 * e
          + daysBefore ! nat (m - 1) + (if isLeap y \<and> m \<ge> 3 then 1 else 0) + (k - 1)
        = A div 86400 + (k - d)"
    using ok(5) tot by linarith
  with daysSinceAbsoluteEpoch_digits [OF ab bb cb eb, of m k]
  show "daysSinceAbsoluteEpoch y m k = u64 (A div 86400 + (k - d))"
    unfolding y by simp
qed

section \<open>Theorems: the time package within its range\<close>

text \<open>
  Within the range of 64 bits the operations of the package are exact: \<open>abs\<close> is the
  wall clock counted from the absolute epoch, \<open>Add\<close> adds the duration, \<open>Truncate\<close> to
  the minute takes off the remainder by a minute, the rounding of \<open>ScheduleForTime\<close> is
  the rounding of the spec in a zone whose offset is a whole number of minutes, and
  \<open>Date\<close> on the fields of a time is the wall clock of that time with the day and the
  time of day that are asked for.
\<close>

lemma epoch_constants:
  "unixToInternal = 62135596800" "internalToUnix = - 62135596800"
  "internalToAbsolute = 9223371966579724800" "absoluteToInternal = - 9223371966579724800"
  by (simp_all add: unixToInternal_def internalToUnix_def internalToAbsolute_def
      absoluteToInternal_def secondsPerDay_def secondsPerHour_def secondsPerMinute_def)

lemma i64_u64_add_left: "i64 (u64 x + y) = i64 (x + y)"
  using i64_add_left [of "u64 x" y] i64_add_left [of x y] by (simp add: i64_u64)

lemma unixSec_eq: "unixSec t = i64 (unixOf t)"
  by (simp add: unixSec_def sec_def unixOf_def internalToUnix_def)

lemma abs_t_eq:
  assumes "representable t"
  shows "abs_t t = wallUnix t + (unixToInternal + internalToAbsolute)"
proof -
  from assms have u: "unixSec t = unixOf t"
    by (simp add: unixSec_eq representable_def i64_id)
  obtain off st en where l: "lookup (location t) (unixOf t) = (off, st, en)"
    by (cases "lookup (location t) (unixOf t)")
  then have o: "offsetAt (location t) (unixOf t) = off"
    by (simp add: offsetAt_def)
  from assms have w: "fitsInt64 (wallUnix t)"
    and p: "0 \<le> wallUnix t + (unixToInternal + internalToAbsolute)"
    by (simp_all add: representable_def)
  from w have "wallUnix t + (unixToInternal + internalToAbsolute) < 2 ^ 64"
    by (simp add: fitsInt64_def epoch_constants)
  with p have "u64 (wallUnix t + (unixToInternal + internalToAbsolute))
                 = wallUnix t + (unixToInternal + internalToAbsolute)"
    by (rule u64_id)
  moreover have "abs_t t = u64 (i64 (wallUnix t) + (unixToInternal + internalToAbsolute))"
    unfolding abs_t_def u Let_def l wallUnix_def o by simp
  ultimately show ?thesis
    using w by (simp add: i64_id)
qed

lemma abs_t_range:
  assumes "representable t"
  shows "0 \<le> abs_t t" "abs_t t < 2 ^ 64"
  using u64_bounds [of "i64 (i64 (unixSec t + fst (lookup (location t) (unixSec t))))
      + (unixToInternal + internalToAbsolute)"]
  by (simp_all add: abs_t_def Let_def split_def u64_def)

lemma quot_rem_facts:
  fixes x k :: int
  assumes "0 < k"
  obtains q r where "quot x k = q" "rem x k = r" "x = k * q + r"
    "0 \<le> x \<longrightarrow> 0 \<le> r \<and> r < k" "x < 0 \<longrightarrow> - k < r \<and> r \<le> 0"
proof (cases "0 \<le> x")
  case True
  with assms have q: "quot x k = x div k" by (simp add: quot_def)
  then have r: "rem x k = x mod k" by (simp add: rem_def minus_mult_div_eq_mod)
  show ?thesis
    by (rule that [OF q r]) (use True assms in simp_all)
next
  case False
  then have n: "x < 0" by simp
  with assms have q: "quot x k = - ((- x) div k)" by (simp add: quot_def)
  have "x - k * - ((- x) div k) = - ((- x) - k * ((- x) div k))" by simp
  also have "\<dots> = - ((- x) mod k)" by (simp only: minus_mult_div_eq_mod)
  finally have r: "rem x k = - ((- x) mod k)" unfolding rem_def q .
  have e: "- x = k * ((- x) div k) + (- x) mod k" by simp
  have b: "0 \<le> (- x) mod k" "(- x) mod k < k" using assms by simp_all
  show ?thesis
  proof (rule that [OF q r])
    from e show "x = k * - (- x div k) + - (- x mod k)" by linarith
    from n show "0 \<le> x \<longrightarrow> 0 \<le> - (- x mod k) \<and> - (- x mod k) < k" by simp
    from b show "x < 0 \<longrightarrow> - k < - (- x mod k) \<and> - (- x mod k) \<le> 0" by simp
  qed
qed

lemma Add_exact:
  assumes f: "fitsInt64 ((unixNano t + sint d) div 1000000000 + unixToInternal)"
  shows "Add t d = Time (unixNano t + sint d) (location t)"
proof -
  define N where "N = unixNano t"
  define S where "S = N div 1000000000"
  define n where "n = N mod 1000000000"
  define x where "x = sint d"
  have N: "N = 1000000000 * S + n" "0 \<le> n" "n < 1000000000"
    unfolding S_def n_def by simp_all
  obtain q r where q: "quot x 1000000000 = q" and r: "rem x 1000000000 = r"
    and x: "x = 1000000000 * q + r"
    and rp: "0 \<le> x \<longrightarrow> 0 \<le> r \<and> r < 1000000000"
    and rn: "x < 0 \<longrightarrow> - 1000000000 < r \<and> r \<le> 0"
    by (rule quot_rem_facts [of 1000000000 x]) simp
  define c where "c = (if n + r \<ge> 1000000000 then q + 1 else if n + r < 0 then q - 1 else q)"
  define m where "m = (if n + r \<ge> 1000000000 then n + r - 1000000000
                       else if n + r < 0 then n + r + 1000000000 else n + r)"
  have m: "0 \<le> m" "m < 1000000000" and tot: "N + x = 1000000000 * (S + c) + m"
    using N x rp rn unfolding c_def m_def by (auto split: if_splits)
  from tot m have dv: "(N + x) div 1000000000 = S + c"
    by (rule div_unique_pos(1))
  have a: "Add t d = Time ((i64 (S + unixToInternal + c) - unixToInternal) * 1000000000 + m)
                       (location t)"
    unfolding Add_def Let_def sec_def nsec_def N_def [symmetric] S_def [symmetric]
      n_def [symmetric] x_def [symmetric] q r c_def m_def
    by (simp split: if_splits)
  have "(N + x) div 1000000000 + unixToInternal = S + unixToInternal + c"
    unfolding dv by simp
  with f have "fitsInt64 (S + unixToInternal + c)"
    unfolding N_def x_def by simp
  then have "i64 (S + unixToInternal + c) = S + unixToInternal + c"
    by (rule i64_id)
  with a tot show ?thesis
    unfolding N_def x_def by simp
qed

lemma sint_neg_of_int:
  fixes r :: int
  assumes "0 \<le> r" "r < 2 ^ 63"
  shows "sint (- (word_of_int r :: 64 word)) = - r"
proof -
  have "sint (word_of_int (- r) :: 64 word) = signed_take_bit (LENGTH(64) - 1) (- r)"
    by (rule sint_sbintrunc')
  also have "\<dots> = - r"
    by (rule signed_take_bit_int_eq_self) (use assms in simp_all)
  finally show ?thesis by simp
qed

lemma Truncate_Minute_exact:
  assumes f: "fitsInt64 ((unixNano t - unixNano t mod 60000000000) div 1000000000
                  + unixToInternal)"
  shows "Truncate t time_Minute
           = Time (unixNano t - unixNano t mod 60000000000) (location t)"
proof -
  have d: "sint time_Minute = 60000000000"
    by (simp add: time_Minute_def time_Second_def)
  define N where "N = unixNano t"
  have "sec t * 1000000000 + nsec t = N + 62135596800 * 1000000000"
    unfolding sec_def nsec_def N_def epoch_constants
    by (simp add: algebra_simps)
  also have "\<dots> = N + 1035593280 * 60000000000" by simp
  finally have "(sec t * 1000000000 + nsec t) mod 60000000000 = N mod 60000000000"
    by (simp only: mod_mult_self1)
  then have tr: "Truncate t time_Minute
                  = Add t (- (word_of_int (N mod 60000000000)))"
    unfolding Truncate_def d by simp
  have b: "0 \<le> N mod 60000000000" "N mod 60000000000 < 60000000000" by simp_all
  then have "N mod 60000000000 < 2 ^ 63" by simp
  from sint_neg_of_int [OF b(1) this]
  have s: "sint (- (word_of_int (N mod 60000000000) :: 64 word)) = - (N mod 60000000000)" .
  from f have "fitsInt64 ((unixNano t + sint (- (word_of_int (N mod 60000000000) :: 64 word)))
                  div 1000000000 + unixToInternal)"
    unfolding s unfolding N_def by simp
  then have "Add t (- (word_of_int (N mod 60000000000)))
          = Time (unixNano t + sint (- (word_of_int (N mod 60000000000) :: 64 word)))
              (location t)"
    by (rule Add_exact)
  with tr s show ?thesis
    unfolding N_def by simp
qed

lemma sint_durations:
  "sint (time_Second * 60) = 60000000000"
  "sint time_Minute = 60000000000"
  "sint time_Hour = 3600000000000"
  by (simp_all add: time_Second_def time_Minute_def time_Hour_def)

lemma location_In [simp]: "location (In t tz) = tz" "unixNano (In t tz) = unixNano t"
  by (simp_all add: In_def)

lemma minute_split:
  fixes N :: int
  shows "N mod 60000000000 = 1000000000 * (N div 1000000000 mod 60) + N mod 1000000000"
proof -
  define U where "U = N div 1000000000"
  define n where "n = N mod 1000000000"
  define q where "q = U div 60"
  define r where "r = U mod 60"
  have a: "N = 1000000000 * U + n" "0 \<le> n" "n < 1000000000"
    unfolding U_def n_def by simp_all
  have b: "U = 60 * q + r" "0 \<le> r" "r < 60"
    unfolding q_def r_def by simp_all
  have "N = 60000000000 * q + (1000000000 * r + n)"
    using a(1) b(1) by simp
  moreover have "0 \<le> 1000000000 * r + n" "1000000000 * r + n < 60000000000"
    using a(2,3) b(2,3) by linarith+
  ultimately have "N mod 60000000000 = 1000000000 * r + n"
    by (rule div_unique_pos(2))
  then show ?thesis
    unfolding r_def n_def U_def .
qed

lemma roundedStart_eq:
  assumes r: "representable (In start tz)"
    and m: "offsetAt tz (unixOf start) mod 60 = 0"
    and f: "fitsInt64 (unixOf start + 60 + unixToInternal)"
  shows "roundedStart tz start = roundUpToMinute (In start tz)"
proof -
  define N where "N = unixNano start"
  define U where "U = N div 1000000000"
  define n where "n = N mod 1000000000"
  define off where "off = offsetAt tz U"
  define k where "k = off div 60"
  define R where "R = N mod 60000000000"
  have u: "unixOf (In start tz) = U" "unixOf start = U"
    by (simp_all add: unixOf_def U_def N_def)
  have offk: "off = 60 * k"
    using m unfolding u off_def [symmetric] k_def by (simp add: mod_eq_0_iff_dvd)
  have w: "wallUnix (In start tz) = U + off"
    by (simp add: wallUnix_def u off_def)
  have wn: "wallNano (In start tz) = N + 60000000000 * k"
    by (simp add: wallNano_def u off_def [symmetric] offk N_def)
  then have wm: "wallNano (In start tz) mod 60000000000 = R"
    unfolding R_def by simp
  have Rs: "R = 1000000000 * (U mod 60) + n"
    unfolding R_def U_def n_def by (rule minute_split)
  have nb: "0 \<le> n" "n < 1000000000" unfolding n_def by simp_all
  have ub: "0 \<le> U mod 60" "U mod 60 < 60" by simp_all
  have ab: "abs_t (In start tz) = U + 60 * k + 9223372028715321600"
    using abs_t_eq [OF r] by (simp add: w offk epoch_constants)
  have "(U + 60 * k + 9223372028715321600) mod 60 = (U + 60 * (k + 153722867145255360)) mod 60"
    by (simp add: algebra_simps)
  also have "\<dots> = U mod 60" by (simp only: mod_mult_self2)
  finally have sc: "Second (In start tz) = U mod 60"
    unfolding Second_def ab time_constants .
  have ns: "Nanosecond (In start tz) = n"
    by (simp add: Nanosecond_def nsec_def n_def N_def)
  have cond: "(Second (In start tz) > 0 \<or> Nanosecond (In start tz) > 0) = (R \<noteq> 0)"
    unfolding sc ns Rs using nb ub by auto
  have Rb: "0 \<le> R" "R < 60000000000" unfolding R_def by simp_all
  have a1: "Add (In start tz) (time_Second * 60) = Time (N + 60000000000) tz"
  proof -
    have "(N + 60000000000) div 1000000000 = U + 60"
      unfolding U_def by simp
    with f have "fitsInt64 ((unixNano (In start tz) + sint (time_Second * 60 :: 64 word))
                    div 1000000000 + unixToInternal)"
      by (simp add: sint_durations u N_def)
    from Add_exact [OF this] show ?thesis
      by (simp add: sint_durations N_def)
  qed
  have md: "(N + 60000000000) mod 60000000000 = R"
    unfolding R_def by simp
  have a2: "Truncate (Time (N + 60000000000) tz) time_Minute
              = Time (N + 60000000000 - R) tz"
  proof -
    define V where "V = (N + 60000000000 - R) div 1000000000"
    have N1: "N = 1000000000 * U + n" unfolding U_def n_def by simp
    have "N + 60000000000 - R = 1000000000 * (U + 60 - U mod 60)"
      unfolding Rs using N1 by simp
    then have V: "V = U + 60 - U mod 60"
      unfolding V_def by simp
    from r have "fitsInt64 (U + unixToInternal)"
      by (simp add: representable_def u)
    with f ub have "fitsInt64 (V + unixToInternal)"
      unfolding V u fitsInt64_def by linarith
    then have "fitsInt64 ((unixNano (Time (N + 60000000000) tz)
                   - unixNano (Time (N + 60000000000) tz) mod 60000000000) div 1000000000
                  + unixToInternal)"
      unfolding V_def R_def by simp
    from Truncate_Minute_exact [OF this] show ?thesis
      unfolding R_def by simp
  qed
  show ?thesis
    unfolding roundedStart_def Let_def cond a1 a2 roundUpToMinute_def wm
    by (simp add: N_def In_def)
qed

lemma i64_of_u64_eq: "u64 a = u64 b \<Longrightarrow> i64 a = i64 b"
  using i64_u64 [of a] i64_u64 [of b] by simp

lemma Date_absDate:
  fixes A :: int
  assumes A: "0 \<le> A" "A < 2 ^ 64" and ad: "absDate A = (y, m, d, yd)"
    and hh: "0 \<le> hh" "hh < 24" and mi: "0 \<le> mi" "mi < 60"
    and ss: "0 \<le> ss" "ss < 60" and ns: "0 \<le> ns" "ns < 1000000000"
  shows "Date y m k hh mi ss ns loc
           = (let w = i64 ((A div 86400 + (k - d)) * 86400 + (hh * 3600 + mi * 60 + ss)
                           - 9223372028715321600)
              in unixTime (i64 (w - dateOffset loc w)) ns loc)"
proof -
  note cal = daysSinceAbsoluteEpoch_absDate [OF A ad]
  from cal(1,2) have "fitsInt64 (m - 1)" "fitsInt64 (m - 1 + 1)"
    by (simp_all add: fitsInt64_def)
  then have m1: "i64 (m - 1) = m - 1" "i64 (m - 1 + 1) = m"
    by (simp_all add: i64_id)
  from cal(1,2) have n1: "norm y (m - 1) 12 = (y, m - 1)"
    by (intro norm_id) simp_all
  have n2: "norm ss ns 1000000000 = (ss, ns)" using ns by (intro norm_id)
  have n3: "norm mi ss 60 = (mi, ss)" using ss by (intro norm_id)
  have n4: "norm hh mi 60 = (hh, mi)" using mi by (intro norm_id)
  have n5: "norm k hh 24 = (k, hh)" using hh by (intro norm_id)
  define T where "T = hh * 3600 + mi * 60 + ss"
  define X where "X = A div 86400 + (k - d)"
  define K where "K = absoluteToInternal + internalToUnix"
  have Tb: "0 \<le> T" "T < 86400" unfolding T_def using hh mi ss by linarith+
  then have "fitsInt64 T" by (simp add: fitsInt64_def)
  then have T: "i64 T = T" by (rule i64_id)
  define absv where "absv = u64 (u64 (u64 X * 86400) + u64 T)"
  have "u64 (absv + K) = u64 (X * 86400 + T + K)"
    unfolding absv_def u64_def by (simp add: mod_simps)
  then have "i64 (absv + K) = i64 (X * 86400 + T + K)"
    by (rule i64_of_u64_eq)
  then have w: "i64 (i64 absv + K) = i64 (X * 86400 + T - 9223372028715321600)"
    unfolding i64_add_left K_def epoch_constants by simp
  have "Date y m k hh mi ss ns loc
          = (let unix = i64 (i64 absv + K)
             in unixTime (i64 (unix - dateOffset loc unix)) ns loc)"
    unfolding Date_def m1 n1 Let_def prod.case n2 n3 n4 n5 cal(6) [of k] time_constants
      T_def [symmetric] X_def [symmetric] T absv_def K_def
    by (rule refl)
  then show ?thesis
    unfolding w Let_def X_def T_def .
qed

lemma clock_split:
  fixes A :: int
  shows "A mod 86400 div 3600 * 3600 + A mod 3600 div 60 * 60 + A mod 60 = A mod 86400"
proof -
  define r where "r = A mod 86400"
  define h where "h = r div 3600"
  define r1 where "r1 = r mod 3600"
  define mi where "mi = r1 div 60"
  define s where "s = r1 mod 60"
  have a: "r = 3600 * h + r1" unfolding h_def r1_def by simp
  have b: "r1 = 60 * mi + s" unfolding mi_def s_def by simp
  have "A mod 3600 = A mod 86400 mod 3600"
    by (simp add: mod_mod_cancel)
  then have c: "A mod 3600 = r1" unfolding r1_def r_def .
  have "A mod 60 = A mod 3600 mod 60"
    by (simp add: mod_mod_cancel)
  then have e: "A mod 60 = s" unfolding c s_def .
  from a b have "h * 3600 + mi * 60 + s = r" by linarith
  then show ?thesis
    unfolding r_def [symmetric] h_def [symmetric] c mi_def [symmetric] e .
qed

lemma clock_bounds:
  fixes A :: int
  shows "0 \<le> A mod 86400 div 3600" "A mod 86400 div 3600 < 24"
    "0 \<le> A mod 3600 div 60" "A mod 3600 div 60 < 60"
    "0 \<le> A mod 60" "A mod 60 < 60"
proof -
  have a: "0 \<le> A mod 86400" "A mod 86400 < 86400" by simp_all
  have b: "0 \<le> A mod 3600" "A mod 3600 < 3600" by simp_all
  from a show "0 \<le> A mod 86400 div 3600" "A mod 86400 div 3600 < 24" by simp_all
  from b show "0 \<le> A mod 3600 div 60" "A mod 3600 div 60 < 60" by simp_all
  show "0 \<le> A mod 60" "A mod 60 < 60" by simp_all
qed

lemma unixTime_exact:
  assumes "fitsInt64 u" "fitsInt64 (u + unixToInternal)"
  shows "unixTime (i64 u) ns loc = Time (u * 1000000000 + ns) loc"
  using assms by (simp add: unixTime_def i64_id)

lemma AddDate_days_exact:
  assumes r: "representable t"
    and dr: "dateResolves (location t) (wallUnix t + 86400 * n)"
  shows "AddDate t 0 0 n
           = Time ((wallUnix t + 86400 * n
                     - dateOffset (location t) (wallUnix t + 86400 * n)) * 1000000000
                   + nsec t) (location t)"
proof -
  define A where "A = abs_t t"
  define W where "W = wallUnix t + 86400 * n"
  have Ae: "A = wallUnix t + 9223372028715321600"
    unfolding A_def abs_t_eq [OF r] epoch_constants by simp
  have A: "0 \<le> A" "A < 2 ^ 64"
    unfolding A_def by (rule abs_t_range [OF r])+
  obtain y m d yd where ad: "absDate A = (y, m, d, yd)"
    by (cases "absDate A") auto
  note cal = daysSinceAbsoluteEpoch_absDate [OF A ad]
  have ymd: "Year t = y" "Month t = m" "Day t = d"
    using ad by (simp_all add: Year_def Month_def Day_def A_def)
  from dr have W: "fitsInt64 W" "fitsInt64 (W - dateOffset (location t) W)"
    "fitsInt64 (W - dateOffset (location t) W + unixToInternal)"
    unfolding W_def dateResolves_def Let_def by simp_all
  from r have fw: "fitsInt64 (wallUnix t)" by (simp add: representable_def)
  from W(1) fw cal(3,4) have "fitsInt64 (d + n)"
    unfolding W_def fitsInt64_def by simp
  then have dn: "i64 (d + n) = d + n" by (rule i64_id)
  from cal(1,2) have "fitsInt64 m" by (simp add: fitsInt64_def)
  then have im: "i64 m = m" by (rule i64_id)
  from cal(5) have iy: "i64 y = y" by (rule i64_id)
  have ns: "0 \<le> nsec t" "nsec t < 1000000000" by (simp_all add: nsec_def)
  note cb = clock_bounds [of A]
  have "(A div 86400 + (d + n - d)) * 86400 + A mod 86400 - 9223372028715321600
          = A + 86400 * n - 9223372028715321600"
    by (simp add: algebra_simps)
  also have "\<dots> = W" unfolding Ae W_def by simp
  finally have w: "i64 ((A div 86400 + (d + n - d)) * 86400
                     + (A mod 86400 div 3600 * 3600 + A mod 3600 div 60 * 60 + A mod 60)
                     - 9223372028715321600) = W"
    unfolding clock_split using W(1) by (simp add: i64_id)
  have "AddDate t 0 0 n
          = Date y m (d + n) (A mod 86400 div 3600) (A mod 3600 div 60) (A mod 60) (nsec t)
              (location t)"
    unfolding AddDate_def ymd Hour_def Minute_def Second_def A_def [symmetric]
      time_constants
    by (simp add: iy im dn)
  also have "\<dots> = unixTime (i64 (W - dateOffset (location t) W)) (nsec t) (location t)"
    unfolding Date_absDate [OF A ad cb ns] w Let_def by (rule refl)
  also have "\<dots> = Time ((W - dateOffset (location t) W) * 1000000000 + nsec t) (location t)"
    by (rule unixTime_exact [OF W(2,3)])
  finally show ?thesis unfolding W_def .
qed

lemma absDate_cong:
  assumes "A div 86400 = A' div 86400"
  shows "absDate A = absDate A'"
  unfolding absDate_def absYear_def time_constants assms by (rule refl)

lemma Date_hour_exact:
  assumes r: "representable p" and h: "0 \<le> h" "h \<le> 23"
    and dr: "dateResolves tz (wallUnix p div 86400 * 86400 + 3600 * h)"
  shows "Date (Year p) (Month p) (Day p) h 0 0 0 tz
           = Time ((wallUnix p div 86400 * 86400 + 3600 * h
                     - dateOffset tz (wallUnix p div 86400 * 86400 + 3600 * h)) * 1000000000)
               tz"
proof -
  define A where "A = abs_t p"
  define W where "W = wallUnix p div 86400 * 86400 + 3600 * h"
  have Ae: "A = wallUnix p + 86400 * 106751991073094"
    unfolding A_def abs_t_eq [OF r] epoch_constants by simp
  have A: "0 \<le> A" "A < 2 ^ 64"
    unfolding A_def by (rule abs_t_range [OF r])+
  obtain y m d yd where ad: "absDate A = (y, m, d, yd)"
    by (cases "absDate A") auto
  have ymd: "Year p = y" "Month p = m" "Day p = d"
    using ad by (simp_all add: Year_def Month_def Day_def A_def)
  from dr have W: "fitsInt64 W" "fitsInt64 (W - dateOffset tz W)"
    "fitsInt64 (W - dateOffset tz W + unixToInternal)"
    unfolding W_def dateResolves_def Let_def by simp_all
  have "A div 86400 = wallUnix p div 86400 + 106751991073094"
    unfolding Ae by simp
  then have "(A div 86400 + (d - d)) * 86400 + (h * 3600 + 0 * 60 + 0) - 9223372028715321600
          = W"
    unfolding W_def by simp
  then have w: "i64 ((A div 86400 + (d - d)) * 86400 + (h * 3600 + 0 * 60 + 0)
                     - 9223372028715321600) = W"
    using W(1) by (simp add: i64_id)
  from h have hb: "0 \<le> h" "h < 24" by simp_all
  have z: "(0::int) \<le> 0" "(0::int) < 60" "(0::int) < 1000000000" by simp_all
  have "Date y m d h 0 0 0 tz = unixTime (i64 (W - dateOffset tz W)) 0 tz"
    unfolding Date_absDate [OF A ad hb z(1,2) z(1,2) z(1,3)] w Let_def by (rule refl)
  also have "\<dots> = Time ((W - dateOffset tz W) * 1000000000 + 0) tz"
    by (rule unixTime_exact [OF W(2,3)])
  finally show ?thesis unfolding W_def ymd by simp
qed

section \<open>Theorems: ScheduleForTime\<close>

lemma sint_mult_fits:
  fixes a b :: "64 word"
  assumes "fitsInt64 (sint a * sint b)"
  shows "sint (a * b) = sint a * sint b"
  using assms unfolding fitsInt64_def sint_word_mult
  by (simp add: signed_take_bit_int_eq_self)

lemma location_Add: "location (Add t d) = location t"
  by (simp add: Add_def Let_def split_def)

lemma location_Truncate: "location (Truncate t d) = location t"
  by (simp add: Truncate_def location_Add)

lemma location_Date: "location (Date y m d hh mi ss ns loc) = loc"
  by (simp add: Date_def Let_def split_def unixTime_def)

lemma location_AddDate: "location (AddDate t y m d) = location t"
  by (simp add: AddDate_def location_Date)

lemma roundedStart_location: "location (roundedStart tz start) = tz"
  by (simp add: roundedStart_def Let_def location_Truncate location_Add)

lemma offsetApplied_location:
  "offsetApplied e t = Inr p \<Longrightarrow> location p = location t"
  by (auto simp: offsetApplied_def location_Add location_AddDate split: if_splits)

lemma location_roundUpToMinute: "location (roundUpToMinute t) = location t"
  by (simp add: roundUpToMinute_def)

lemma wall_of_seconds:
  assumes "0 \<le> ns" "ns < 1000000000"
  shows "unixOf (Time (u * 1000000000 + ns) tz) = u"
    and "wallUnix (Time (u * 1000000000 + ns) tz) = u + offsetAt tz u"
    and "wallNano (Time (u * 1000000000 + ns) tz) = (u + offsetAt tz u) * 1000000000 + ns"
proof -
  have "u * 1000000000 + ns = 1000000000 * u + ns" by simp
  from this assms have "(u * 1000000000 + ns) div 1000000000 = u"
    by (rule div_unique_pos(1))
  then show u: "unixOf (Time (u * 1000000000 + ns) tz) = u"
    by (simp add: unixOf_def)
  show "wallUnix (Time (u * 1000000000 + ns) tz) = u + offsetAt tz u"
    unfolding wallUnix_def u by simp
  show "wallNano (Time (u * 1000000000 + ns) tz) = (u + offsetAt tz u) * 1000000000 + ns"
    unfolding wallNano_def u by (simp add: algebra_simps)
qed

lemma wallNano_split: "wallNano t = wallUnix t * 1000000000 + nsec t"
proof -
  have "unixNano t = 1000000000 * unixOf t + nsec t"
    unfolding unixOf_def nsec_def by simp
  then show ?thesis
    unfolding wallNano_def wallUnix_def by (simp add: algebra_simps)
qed

lemma AddDate_calendarDaysLater:
  assumes r: "representable t"
    and dr: "dateResolves (location t) (wallDaysLater t n)"
  shows "calendarDaysLater n t (AddDate t 0 0 n)"
proof -
  define W where "W = wallUnix t + 86400 * n"
  define off where "off = dateOffset (location t) W"
  from dr have rs: "offsetAt (location t) (W - off) = off"
    unfolding wallDaysLater_def dateResolves_def Let_def W_def off_def by simp
  have ns: "0 \<le> nsec t" "nsec t < 1000000000" by (simp_all add: nsec_def)
  have a: "AddDate t 0 0 n = Time ((W - off) * 1000000000 + nsec t) (location t)"
    unfolding W_def off_def
    by (rule AddDate_days_exact [OF r dr [unfolded wallDaysLater_def]])
  have "wallNano (AddDate t 0 0 n) = (W - off + off) * 1000000000 + nsec t"
    unfolding a wall_of_seconds(3) [OF ns] rs by (rule refl)
  also have "\<dots> = wallNano t + n * 86400000000000"
    unfolding wallNano_split W_def by simp
  finally show ?thesis
    unfolding calendarDaysLater_def a by simp
qed

lemma offsetApplied_recognized:
  assumes "Unit e \<in> {OffsetMinute, OffsetHour, OffsetDay, OffsetWeek}"
  shows "\<exists>p. offsetApplied e t = Inr p"
  using assms by (auto simp: offsetApplied_def)

lemma Date_hour_reading:
  assumes r: "representable p" and h: "0 \<le> h" "h \<le> 23"
    and dr: "dateResolves tz (wallAtHour p h)"
  shows "absDate (abs_t (Date (Year p) (Month p) (Day p) h 0 0 0 tz)) = absDate (abs_t p)"
    and "abs_t (Date (Year p) (Month p) (Day p) h 0 0 0 tz) mod 86400 = 3600 * h"
    and "nsec (Date (Year p) (Month p) (Day p) h 0 0 0 tz) = 0"
proof -
  define W where "W = wallUnix p div 86400 * 86400 + 3600 * h"
  define off where "off = dateOffset tz W"
  define c where "c = Date (Year p) (Month p) (Day p) h 0 0 0 tz"
  define q where "q = wallUnix p div 86400"
  from dr have W: "fitsInt64 W" "fitsInt64 (W - off)" "fitsInt64 (W - off + unixToInternal)"
    and rs: "offsetAt tz (W - off) = off"
    unfolding wallAtHour_def dateResolves_def Let_def W_def off_def by simp_all
  have c: "c = Time ((W - off) * 1000000000 + 0) tz"
    unfolding c_def W_def off_def
    using Date_hour_exact [OF r h dr [unfolded wallAtHour_def]] by simp
  have z: "(0::int) \<le> 0" "(0::int) < 1000000000" by simp_all
  have u: "unixOf c = W - off" and w: "wallUnix c = W"
    unfolding c wall_of_seconds(1,2) [OF z] rs by simp_all
  from r have p0: "0 \<le> wallUnix p + 86400 * 106751991073094"
    by (simp add: representable_def epoch_constants)
  have "(wallUnix p + 86400 * 106751991073094) div 86400 = q + 106751991073094"
    unfolding q_def by simp
  with p0 have qb: "0 \<le> q + 106751991073094"
    by (metis pos_imp_zdiv_nonneg_iff zero_less_numeral)
  have Wq: "W = 86400 * q + 3600 * h" unfolding W_def q_def by simp
  have "0 \<le> W + 9223372028715321600"
    unfolding Wq using qb h by linarith
  with W u w have rc: "representable c"
    by (simp add: representable_def epoch_constants)
  have ac: "abs_t c = 86400 * (q + 106751991073094) + 3600 * h"
    unfolding abs_t_eq [OF rc] w Wq epoch_constants by simp
  have pq: "wallUnix p = 86400 * q + wallUnix p mod 86400"
    unfolding q_def by simp
  have ap: "abs_t p = 86400 * (q + 106751991073094) + wallUnix p mod 86400"
    unfolding abs_t_eq [OF r] epoch_constants using pq by simp
  have hb: "0 \<le> 3600 * h" "3600 * h < 86400" using h by simp_all
  have mb: "0 \<le> wallUnix p mod 86400" "wallUnix p mod 86400 < 86400" by simp_all
  have "abs_t c div 86400 = q + 106751991073094"
    by (rule div_unique_pos(1) [OF ac hb])
  moreover have "abs_t p div 86400 = q + 106751991073094"
    by (rule div_unique_pos(1) [OF ap mb])
  ultimately have "abs_t c div 86400 = abs_t p div 86400" by simp
  then show "absDate (abs_t (Date (Year p) (Month p) (Day p) h 0 0 0 tz)) = absDate (abs_t p)"
    unfolding c_def by (rule absDate_cong)
  show "abs_t (Date (Year p) (Month p) (Day p) h 0 0 0 tz) mod 86400 = 3600 * h"
    unfolding c_def [symmetric] by (rule div_unique_pos(2) [OF ac hb])
  show "nsec (Date (Year p) (Month p) (Day p) h 0 0 0 tz) = 0"
    unfolding c_def [symmetric] c by (simp add: nsec_def)
qed

text \<open>
  C2, as the code has it. The last test of \<open>ScheduleForTime\<close> is \<open>scheduled.Before(now)\<close>:
  the computed instant is dropped when it is strictly before \<open>now\<close>; when it is equal to
  \<open>now\<close>, or after it, it is returned.
\<close>

theorem C2_no_fire_when_before_now:
  assumes "scheduledInstant e tz start = Inr s"
  shows "(unixNano s < unixNano now \<longrightarrow> ScheduleForTime e tz now start = Inr None)
    \<and> (unixNano s = unixNano now \<longrightarrow> ScheduleForTime e tz now start = Inr (Some s))
    \<and> (unixNano now < unixNano s \<longrightarrow> ScheduleForTime e tz now start = Inr (Some s))"
  using assms
  by (auto simp: scheduledInstant_def ScheduleForTime_def Before_def Let_def split: sum.splits)

theorem C2_no_fire_when_before_now_witness:
  "scheduledInstant minuteLater UTC (Date 2024 1 1 0 0 0 0 UTC) = Inr (Date 2024 1 1 0 1 0 0 UTC)
   \<and> unixNano (Date 2024 1 1 0 1 0 0 UTC) < unixNano (Date 2024 1 5 0 0 0 0 UTC)
   \<and> ScheduleForTime minuteLater UTC (Date 2024 1 5 0 0 0 0 UTC) (Date 2024 1 1 0 0 0 0 UTC)
       = Inr None"
proof -
  have s: "scheduledInstant minuteLater UTC (Date 2024 1 1 0 0 0 0 UTC)
             = Inr (Date 2024 1 1 0 1 0 0 UTC)"
    by code_simp
  have b: "unixNano (Date 2024 1 1 0 1 0 0 UTC) < unixNano (Date 2024 1 5 0 0 0 0 UTC)"
    by code_simp
  from C2_no_fire_when_before_now [OF s, where now = "Date 2024 1 5 0 0 0 0 UTC"] s b
  show ?thesis
    by blast
qed

text \<open>
  The claim C2 as stated fails: an event one minute after a start of 2024-01-01 00:00:00
  UTC computes 00:01:00, and with \<open>now\<close> at exactly 00:01:00 it is returned as the next
  fire.
\<close>

theorem C2_counterexample:
  "scheduledInstant minuteLater UTC (Date 2024 1 1 0 0 0 0 UTC) = Inr (Date 2024 1 1 0 1 0 0 UTC)
   \<and> ScheduleForTime minuteLater UTC (Date 2024 1 1 0 1 0 0 UTC) (Date 2024 1 1 0 0 0 0 UTC)
       = Inr (Some (Date 2024 1 1 0 1 0 0 UTC))"
  by code_simp

text \<open>
  C4, as the code has it. For an event without delivery hour whose unit is one of the
  four, the instant computed is the start in the timezone, rounded up to the next whole
  minute of the wall clock unless it is on one, plus the offset in its unit: that many
  minutes or hours later, or at the same wall-clock time that many calendar days (seven
  times that many for weeks) later; it is returned unless it is before \<open>now\<close>. This
  holds provided that the UTC offset of the timezone at the start is a whole number of
  minutes; that nothing overflows 64 bits, namely the start and the instant a minute
  after it are within the range of \<open>time.Time\<close>, the offset fits \<open>int64\<close> when it is
  turned into nanoseconds (minutes, hours) or multiplied by seven (weeks), and the result
  (minutes, hours) or the rounded start (days, weeks) is within that range; and that,
  for days and weeks, \<open>time.Date\<close> resolves the wall-clock time of the result in the
  timezone, which it does not when a change of the zone's offset skips that wall-clock
  time.
\<close>

theorem C4_schedule_without_delivery_hour:
  assumes "DeliveryHour e = NilDeliveryHour"
    and "Unit e \<in> {OffsetMinute, OffsetHour, OffsetDay, OffsetWeek}"
    and "offsetAt tz (unixOf start) mod 60 = 0"
    and "representable (In start tz)"
    and "fitsInt64 (sec (plusDuration start 60000000000))"
    and "Unit e = OffsetMinute \<longrightarrow>
           fitsInt64 (sint (Offset e) * 60000000000)
           \<and> fitsInt64 (sec (plusDuration (roundUpToMinute (In start tz))
                                (sint (Offset e) * 60000000000)))"
    and "Unit e = OffsetHour \<longrightarrow>
           fitsInt64 (sint (Offset e) * 3600000000000)
           \<and> fitsInt64 (sec (plusDuration (roundUpToMinute (In start tz))
                                (sint (Offset e) * 3600000000000)))"
    and "Unit e = OffsetDay \<longrightarrow>
           representable (roundUpToMinute (In start tz))
           \<and> dateResolves tz (wallDaysLater (roundUpToMinute (In start tz)) (sint (Offset e)))"
    and "Unit e = OffsetWeek \<longrightarrow>
           fitsInt64 (7 * sint (Offset e))
           \<and> representable (roundUpToMinute (In start tz))
           \<and> dateResolves tz
                (wallDaysLater (roundUpToMinute (In start tz)) (7 * sint (Offset e)))"
  shows "\<exists>r. scheduledInstant e tz start = Inr r
    \<and> plusOffset (roundUpToMinute (In start tz)) (Unit e) (sint (Offset e)) r
    \<and> ScheduleForTime e tz now start = (if Before r now then Inr None else Inr (Some r))"
proof -
  let ?c = "roundUpToMinute (In start tz)"
  let ?n = "sint (Offset e)"
  have lc: "location ?c = tz" by (simp add: location_roundUpToMinute)
  have "(unixNano start + 60000000000) div 1000000000 = unixNano start div 1000000000 + 60"
    by simp
  with assms(5) have "fitsInt64 (unixOf start + 60 + unixToInternal)"
    by (simp add: sec_def plusDuration_def unixOf_def)
  from roundedStart_eq [OF assms(4,3) this]
  have rs: "roundedStart tz start = ?c" .
  have oa: "\<exists>r. offsetApplied e ?c = Inr r \<and> plusOffset ?c (Unit e) ?n r"
  proof -
    consider (M) "Unit e = OffsetMinute" | (H) "Unit e = OffsetHour"
      | (D) "Unit e = OffsetDay" | (W) "Unit e = OffsetWeek"
      using assms(2) by auto
    then show ?thesis
    proof cases
      case M
      with assms(6) have f: "fitsInt64 (sint time_Minute * ?n)"
        and g: "fitsInt64 (sec (plusDuration ?c (?n * 60000000000)))"
        by (simp_all add: sint_durations mult.commute)
      from sint_mult_fits [OF f] have s: "sint (time_Minute * Offset e) = ?n * 60000000000"
        by (simp add: sint_durations)
      from g have "fitsInt64 ((unixNano ?c + sint (time_Minute * Offset e)) div 1000000000
                      + unixToInternal)"
        unfolding s by (simp add: sec_def plusDuration_def)
      from Add_exact [OF this]
      have "Add ?c (time_Minute * Offset e) = plusDuration ?c (?n * 60000000000)"
        unfolding s plusDuration_def .
      with M show ?thesis
        by (simp add: offsetApplied_def plusOffset_def)
    next
      case H
      with assms(7) have f: "fitsInt64 (sint time_Hour * ?n)"
        and g: "fitsInt64 (sec (plusDuration ?c (?n * 3600000000000)))"
        by (simp_all add: sint_durations mult.commute)
      from sint_mult_fits [OF f] have s: "sint (time_Hour * Offset e) = ?n * 3600000000000"
        by (simp add: sint_durations)
      from g have "fitsInt64 ((unixNano ?c + sint (time_Hour * Offset e)) div 1000000000
                      + unixToInternal)"
        unfolding s by (simp add: sec_def plusDuration_def)
      from Add_exact [OF this]
      have "Add ?c (time_Hour * Offset e) = plusDuration ?c (?n * 3600000000000)"
        unfolding s plusDuration_def .
      with H show ?thesis
        by (simp add: offsetApplied_def plusOffset_def OffsetMinute_def OffsetHour_def)
    next
      case D
      with assms(8) have r: "representable ?c"
        and dr: "dateResolves (location ?c) (wallDaysLater ?c ?n)"
        by (simp_all add: lc)
      from AddDate_calendarDaysLater [OF r dr] D show ?thesis
        by (simp add: offsetApplied_def plusOffset_def OffsetMinute_def OffsetHour_def
            OffsetDay_def)
    next
      case W
      with assms(9) have f: "fitsInt64 (?n * sint (7 :: 64 word))"
        and r: "representable ?c"
        and dr: "dateResolves (location ?c) (wallDaysLater ?c (7 * ?n))"
        by (simp_all add: lc mult.commute)
      from sint_mult_fits [OF f] have s: "sint (Offset e * 7) = 7 * ?n"
        by simp
      from AddDate_calendarDaysLater [OF r dr] W show ?thesis
        by (simp add: offsetApplied_def plusOffset_def s OffsetMinute_def OffsetHour_def
            OffsetDay_def OffsetWeek_def)
    qed
  qed
  then obtain r where r: "offsetApplied e ?c = Inr r"
    and p: "plusOffset ?c (Unit e) ?n r" by blast
  have dh: "deliveryHourApplied e tz t = t" for t
    using assms(1) by (simp add: deliveryHourApplied_def)
  have "scheduledInstant e tz start = Inr r"
    and "ScheduleForTime e tz now start = (if Before r now then Inr None else Inr (Some r))"
    by (simp_all add: scheduledInstant_def ScheduleForTime_def rs r dh)
  with p show ?thesis by blast
qed

theorem C4_schedule_without_delivery_hour_witness:
  "DeliveryHour hourAfterHalfMinute = NilDeliveryHour
   \<and> Unit hourAfterHalfMinute = OffsetHour
   \<and> sint (Offset hourAfterHalfMinute) = 1
   \<and> representable (In (Date 2024 6 1 10 0 30 0 UTC) UTC)
   \<and> ScheduleForTime hourAfterHalfMinute UTC (Date 2024 1 1 0 0 0 0 UTC)
         (Date 2024 6 1 10 0 30 0 UTC)
       = Inr (Some (Date 2024 6 1 11 1 0 0 UTC))
   \<and> plusOffset (roundUpToMinute (In (Date 2024 6 1 10 0 30 0 UTC) UTC)) OffsetHour 1
         (Date 2024 6 1 11 1 0 0 UTC)
   \<and> DeliveryHour dayLater = NilDeliveryHour
   \<and> Unit dayLater = OffsetDay
   \<and> sint (Offset dayLater) = 1
   \<and> dateResolves LosAngeles
         (wallDaysLater (roundUpToMinute (In (Date 2024 3 9 20 0 0 0 UTC) LosAngeles)) 1)
   \<and> ScheduleForTime dayLater LosAngeles (Date 2024 1 1 0 0 0 0 UTC)
         (Date 2024 3 9 20 0 0 0 UTC)
       = Inr (Some (In (Date 2024 3 10 19 0 0 0 UTC) LosAngeles))
   \<and> plusOffset (roundUpToMinute (In (Date 2024 3 9 20 0 0 0 UTC) LosAngeles)) OffsetDay 1
         (In (Date 2024 3 10 19 0 0 0 UTC) LosAngeles)"
proof -
  let ?now = "Date 2024 1 1 0 0 0 0 UTC"
  let ?s1 = "Date 2024 6 1 10 0 30 0 UTC"
  let ?r1 = "Date 2024 6 1 11 1 0 0 UTC"
  let ?s2 = "Date 2024 3 9 20 0 0 0 UTC"
  let ?r2 = "In (Date 2024 3 10 19 0 0 0 UTC) LosAngeles"
  have h1: "DeliveryHour hourAfterHalfMinute = NilDeliveryHour"
    and u1: "Unit hourAfterHalfMinute = OffsetHour"
    and n1: "sint (Offset hourAfterHalfMinute) = 1"
    and m1: "Unit hourAfterHalfMinute \<in> {OffsetMinute, OffsetHour, OffsetDay, OffsetWeek}"
    by code_simp+
  have a1: "offsetAt UTC (unixOf ?s1) mod 60 = 0"
    and b1: "representable (In ?s1 UTC)"
    and c1: "fitsInt64 (sec (plusDuration ?s1 60000000000))"
    by code_simp+
  have e1: "Unit hourAfterHalfMinute = OffsetMinute \<longrightarrow>
           fitsInt64 (sint (Offset hourAfterHalfMinute) * 60000000000)
           \<and> fitsInt64 (sec (plusDuration (roundUpToMinute (In ?s1 UTC))
                                (sint (Offset hourAfterHalfMinute) * 60000000000)))"
    and f1: "Unit hourAfterHalfMinute = OffsetHour \<longrightarrow>
           fitsInt64 (sint (Offset hourAfterHalfMinute) * 3600000000000)
           \<and> fitsInt64 (sec (plusDuration (roundUpToMinute (In ?s1 UTC))
                                (sint (Offset hourAfterHalfMinute) * 3600000000000)))"
    and g1: "Unit hourAfterHalfMinute = OffsetDay \<longrightarrow>
           representable (roundUpToMinute (In ?s1 UTC))
           \<and> dateResolves UTC (wallDaysLater (roundUpToMinute (In ?s1 UTC))
                (sint (Offset hourAfterHalfMinute)))"
    and i1: "Unit hourAfterHalfMinute = OffsetWeek \<longrightarrow>
           fitsInt64 (7 * sint (Offset hourAfterHalfMinute))
           \<and> representable (roundUpToMinute (In ?s1 UTC))
           \<and> dateResolves UTC
                (wallDaysLater (roundUpToMinute (In ?s1 UTC))
                   (7 * sint (Offset hourAfterHalfMinute)))"
    by code_simp+
  have s1: "scheduledInstant hourAfterHalfMinute UTC ?s1 = Inr ?r1"
    and nb1: "\<not> Before ?r1 ?now"
    by code_simp+
  from C4_schedule_without_delivery_hour [OF h1 m1 a1 b1 c1 e1 f1 g1 i1, where now = ?now] s1
  have w1: "plusOffset (roundUpToMinute (In ?s1 UTC)) OffsetHour 1 ?r1"
    and r1: "ScheduleForTime hourAfterHalfMinute UTC ?now ?s1 = Inr (Some ?r1)"
    using nb1 u1 n1 by auto
  have h2: "DeliveryHour dayLater = NilDeliveryHour"
    and u2: "Unit dayLater = OffsetDay"
    and n2: "sint (Offset dayLater) = 1"
    and m2: "Unit dayLater \<in> {OffsetMinute, OffsetHour, OffsetDay, OffsetWeek}"
    by code_simp+
  have a2: "offsetAt LosAngeles (unixOf ?s2) mod 60 = 0"
    and b2: "representable (In ?s2 LosAngeles)"
    and c2: "fitsInt64 (sec (plusDuration ?s2 60000000000))"
    and d2: "dateResolves LosAngeles
         (wallDaysLater (roundUpToMinute (In ?s2 LosAngeles)) 1)"
    by code_simp+
  have e2: "Unit dayLater = OffsetMinute \<longrightarrow>
           fitsInt64 (sint (Offset dayLater) * 60000000000)
           \<and> fitsInt64 (sec (plusDuration (roundUpToMinute (In ?s2 LosAngeles))
                                (sint (Offset dayLater) * 60000000000)))"
    and f2: "Unit dayLater = OffsetHour \<longrightarrow>
           fitsInt64 (sint (Offset dayLater) * 3600000000000)
           \<and> fitsInt64 (sec (plusDuration (roundUpToMinute (In ?s2 LosAngeles))
                                (sint (Offset dayLater) * 3600000000000)))"
    and g2: "Unit dayLater = OffsetDay \<longrightarrow>
           representable (roundUpToMinute (In ?s2 LosAngeles))
           \<and> dateResolves LosAngeles (wallDaysLater (roundUpToMinute (In ?s2 LosAngeles))
                (sint (Offset dayLater)))"
    and i2: "Unit dayLater = OffsetWeek \<longrightarrow>
           fitsInt64 (7 * sint (Offset dayLater))
           \<and> representable (roundUpToMinute (In ?s2 LosAngeles))
           \<and> dateResolves LosAngeles
                (wallDaysLater (roundUpToMinute (In ?s2 LosAngeles))
                   (7 * sint (Offset dayLater)))"
    by code_simp+
  have s2: "scheduledInstant dayLater LosAngeles ?s2 = Inr ?r2"
    and nb2: "\<not> Before ?r2 ?now"
    by code_simp+
  from C4_schedule_without_delivery_hour [OF h2 m2 a2 b2 c2 e2 f2 g2 i2, where now = ?now] s2
  have w2: "plusOffset (roundUpToMinute (In ?s2 LosAngeles)) OffsetDay 1 ?r2"
    and r2: "ScheduleForTime dayLater LosAngeles ?now ?s2 = Inr (Some ?r2)"
    using nb2 u2 n2 by auto
  from h1 u1 n1 b1 r1 w1 h2 u2 n2 d2 r2 w2 show ?thesis
    by simp
qed

text \<open>
  The claim C4 as stated fails, in five ways. With an offset of 153722868 minutes the
  product \<open>time.Minute * time.Duration(offset)\<close> exceeds \<open>int64\<close> and wraps around to
  a negative duration, so the instant computed lies in 1732 and not 153722868 minutes
  after the start. With an offset of 106751990428264 days the seconds of the result
  since the internal epoch exceed \<open>int64\<close> inside \<open>time.Date\<close>: the instant that many
  calendar days later exists and is after \<open>now\<close>, and the function returns no fire.
  With an offset of 2635249153387078803 weeks the product \<open>Offset() * 7\<close> wraps around
  to 5, and the result is five days after the start. In a zone thirty seconds east of
  UTC a start at 10:00:40 on the wall clock is rounded to 10:01:30 and not to 10:01:00,
  because \<open>Truncate\<close> rounds the time since the internal epoch and not the wall clock.
  In America/Los_Angeles, one day after 2024-03-09 02:30 the wall clock never shows
  02:30, which the change to summer time skips: the result is 01:30, 23 hours of wall
  clock after the start. And ten seconds before the last second that \<open>time.Time\<close> can
  hold, adding the minute of the rounding leaves the range of \<open>int64\<close>, and the instant
  computed is not the one described.
\<close>

theorem C4_counterexample:
  "sint (Offset overflowingMinutes) = 153722868
   \<and> scheduledInstant overflowingMinutes UTC (Date 2024 6 1 10 0 0 0 UTC)
       = Inr (Time (- 7506135993709551616) UTC)
   \<and> \<not> plusOffset (roundUpToMinute (In (Date 2024 6 1 10 0 0 0 UTC) UTC)) OffsetMinute
         153722868 (Time (- 7506135993709551616) UTC)
   \<and> sint (Offset overflowingDays) = 106751990428264
   \<and> plusOffset (roundUpToMinute (In (Date 2024 6 1 10 0 0 0 UTC) UTC)) OffsetDay
         106751990428264 (Time 9223371974719245600000000000 UTC)
   \<and> \<not> Before (Time 9223371974719245600000000000 UTC) (Date 2024 1 1 0 0 0 0 UTC)
   \<and> ScheduleForTime overflowingDays UTC (Date 2024 1 1 0 0 0 0 UTC)
         (Date 2024 6 1 10 0 0 0 UTC) = Inr None
   \<and> sint (Offset overflowingWeeks) = 2635249153387078803
   \<and> ScheduleForTime overflowingWeeks UTC (Date 2024 1 1 0 0 0 0 UTC)
         (Date 2024 6 1 10 0 0 0 UTC) = Inr (Some (Date 2024 6 6 10 0 0 0 UTC))
   \<and> \<not> plusOffset (roundUpToMinute (In (Date 2024 6 1 10 0 0 0 UTC) UTC)) OffsetWeek
         2635249153387078803 (Date 2024 6 6 10 0 0 0 UTC)
   \<and> roundedStart halfMinuteEast (Date 2024 6 1 10 0 10 0 UTC)
       = In (Date 2024 6 1 10 1 0 0 UTC) halfMinuteEast
   \<and> Second (In (Date 2024 6 1 10 1 0 0 UTC) halfMinuteEast) = 30
   \<and> roundUpToMinute (In (Date 2024 6 1 10 0 10 0 UTC) halfMinuteEast)
       = In (Date 2024 6 1 10 0 30 0 UTC) halfMinuteEast
   \<and> ScheduleForTime minuteLater halfMinuteEast (Date 2024 1 1 0 0 0 0 UTC)
         (Date 2024 6 1 10 0 10 0 UTC)
       = Inr (Some (In (Date 2024 6 1 10 2 0 0 UTC) halfMinuteEast))
   \<and> \<not> plusOffset (roundUpToMinute (In (Date 2024 6 1 10 0 10 0 UTC) halfMinuteEast))
         OffsetMinute 1 (In (Date 2024 6 1 10 2 0 0 UTC) halfMinuteEast)
   \<and> ScheduleForTime dayLater LosAngeles (Date 2024 1 1 0 0 0 0 UTC)
         (Date 2024 3 9 10 30 0 0 UTC)
       = Inr (Some (In (Date 2024 3 10 9 30 0 0 UTC) LosAngeles))
   \<and> wallNano (In (Date 2024 3 10 9 30 0 0 UTC) LosAngeles)
       = wallNano (roundUpToMinute (In (Date 2024 3 9 10 30 0 0 UTC) LosAngeles))
           + 23 * 3600000000000
   \<and> \<not> plusOffset (roundUpToMinute (In (Date 2024 3 9 10 30 0 0 UTC) LosAngeles)) OffsetDay 1
         (In (Date 2024 3 10 9 30 0 0 UTC) LosAngeles)
   \<and> representable nearEndOfTime
   \<and> \<not> fitsInt64 (sec (plusDuration nearEndOfTime 60000000000))
   \<and> scheduledInstant minuteLater UTC nearEndOfTime
       \<noteq> Inr (plusDuration (roundUpToMinute (In nearEndOfTime UTC)) 60000000000)"
  by code_simp

text \<open>
  C9, as the code has it. For an event with a recognised unit and a delivery hour that is
  set and between 0 and 23, when the result of applying the offset is within the range
  of \<open>time.Time\<close> and \<open>time.Date\<close> resolves the wall-clock time of the delivery hour on
  the date of that result in the timezone (which it does not when a change of the zone's
  offset skips that wall-clock time), the instant computed has the delivery hour as its
  hour, zero minutes, seconds and nanoseconds, and the year, month and day, in the
  timezone, of the result of applying the offset; it is returned unless it is before
  \<open>now\<close>.
\<close>

theorem C9_delivery_hour:
  assumes "DeliveryHour e \<noteq> NilDeliveryHour"
    and "0 \<le> sint (DeliveryHour e)" and "sint (DeliveryHour e) \<le> 23"
    and "Unit e \<in> {OffsetMinute, OffsetHour, OffsetDay, OffsetWeek}"
    and "offsetApplied e (roundedStart tz start) = Inr p"
    and "representable p"
    and "dateResolves tz (wallAtHour p (sint (DeliveryHour e)))"
  shows "\<exists>c. scheduledInstant e tz start = Inr c
    \<and> ScheduleForTime e tz now start = (if Before c now then Inr None else Inr (Some c))
    \<and> location p = tz \<and> location c = tz
    \<and> Hour c = sint (DeliveryHour e)
    \<and> Minute c = 0 \<and> Second c = 0 \<and> Nanosecond c = 0
    \<and> Year c = Year p \<and> Month c = Month p \<and> Day c = Day p"
proof -
  let ?h = "sint (DeliveryHour e)"
  let ?c = "Date (Year p) (Month p) (Day p) ?h 0 0 0 tz"
  from offsetApplied_location [OF assms(5)] have lp: "location p = tz"
    by (simp add: roundedStart_location)
  note rd = Date_hour_reading [OF assms(6) assms(2,3) assms(7)]
  have dh: "deliveryHourApplied e tz p = ?c"
    using assms(1) by (simp add: deliveryHourApplied_def)
  have si: "scheduledInstant e tz start = Inr ?c"
    by (simp add: scheduledInstant_def assms(5) dh)
  have sf: "ScheduleForTime e tz now start = (if Before ?c now then Inr None else Inr (Some ?c))"
    by (simp add: ScheduleForTime_def assms(5) dh)
  have "Year ?c = (case absDate (abs_t ?c) of (year, month, day, yday) \<Rightarrow> year)"
    by (rule Year_def)
  also have "\<dots> = (case absDate (abs_t p) of (year, month, day, yday) \<Rightarrow> year)"
    by (simp only: rd(1))
  also have "\<dots> = Year p" by (rule Year_def [symmetric])
  finally have sy: "Year ?c = Year p" .
  have "Month ?c = (case absDate (abs_t ?c) of (year, month, day, yday) \<Rightarrow> month)"
    by (rule Month_def)
  also have "\<dots> = (case absDate (abs_t p) of (year, month, day, yday) \<Rightarrow> month)"
    by (simp only: rd(1))
  also have "\<dots> = Month p" by (rule Month_def [symmetric])
  finally have sm: "Month ?c = Month p" .
  have "Day ?c = (case absDate (abs_t ?c) of (year, month, day, yday) \<Rightarrow> day)"
    by (rule Day_def)
  also have "\<dots> = (case absDate (abs_t p) of (year, month, day, yday) \<Rightarrow> day)"
    by (simp only: rd(1))
  also have "\<dots> = Day p" by (rule Day_def [symmetric])
  finally have sd: "Day ?c = Day p" .
  note same = sy sm sd
  have hr: "Hour ?c = ?h"
    unfolding Hour_def time_constants rd(2) by simp
  define A where "A = abs_t ?c"
  have m: "A mod 86400 = 3600 * ?h" unfolding A_def by (rule rd(2))
  define k where "k = A div 86400"
  have "A = 86400 * k + A mod 86400" unfolding k_def by simp
  with m have "A = 3600 * (24 * k + ?h)" by simp
  then have d3600: "A mod 3600 = 0"
    by (metis mod_mult_self1_is_0)
  have "A mod 60 = A mod 3600 mod 60"
    by (simp add: mod_mod_cancel)
  with d3600 have d60: "A mod 60 = 0" by simp
  have mi: "Minute ?c = 0"
    unfolding Minute_def time_constants A_def [symmetric] d3600 by simp
  have sc: "Second ?c = 0"
    unfolding Second_def time_constants A_def [symmetric] d60 by simp
  have ns: "Nanosecond ?c = 0"
    unfolding Nanosecond_def by (rule rd(3))
  have lc: "location ?c = tz" by (rule location_Date)
  show ?thesis
    apply (rule exI [of _ ?c])
    using lp si sf same hr mi sc ns lc by simp
qed

theorem C9_delivery_hour_witness:
  "DeliveryHour twoDaysAtNine \<noteq> NilDeliveryHour
   \<and> sint (DeliveryHour twoDaysAtNine) = 9
   \<and> Unit twoDaysAtNine = OffsetDay
   \<and> offsetApplied twoDaysAtNine (roundedStart UTC (Date 2024 1 1 15 30 0 0 UTC))
       = Inr (Date 2024 1 3 15 30 0 0 UTC)
   \<and> ScheduleForTime twoDaysAtNine UTC (Date 2024 1 1 0 0 0 0 UTC) (Date 2024 1 1 15 30 0 0 UTC)
       = Inr (Some (Date 2024 1 3 9 0 0 0 UTC))
   \<and> DeliveryHour dayLaterAtNine \<noteq> NilDeliveryHour
   \<and> sint (DeliveryHour dayLaterAtNine) = 9
   \<and> Unit dayLaterAtNine = OffsetDay
   \<and> offsetApplied dayLaterAtNine (roundedStart LosAngeles (Date 2024 3 9 20 0 0 0 UTC))
       = Inr (In (Date 2024 3 10 19 0 0 0 UTC) LosAngeles)
   \<and> dateResolves LosAngeles (wallAtHour (In (Date 2024 3 10 19 0 0 0 UTC) LosAngeles) 9)
   \<and> ScheduleForTime dayLaterAtNine LosAngeles (Date 2024 1 1 0 0 0 0 UTC)
         (Date 2024 3 9 20 0 0 0 UTC)
       = Inr (Some (Date 2024 3 10 9 0 0 0 LosAngeles))
   \<and> Hour (Date 2024 3 10 9 0 0 0 LosAngeles) = 9
   \<and> Day (Date 2024 3 10 9 0 0 0 LosAngeles) = 10"
proof -
  let ?now = "Date 2024 1 1 0 0 0 0 UTC"
  let ?s1 = "Date 2024 1 1 15 30 0 0 UTC"
  let ?p1 = "Date 2024 1 3 15 30 0 0 UTC"
  let ?c1 = "Date 2024 1 3 9 0 0 0 UTC"
  let ?s2 = "Date 2024 3 9 20 0 0 0 UTC"
  let ?p2 = "In (Date 2024 3 10 19 0 0 0 UTC) LosAngeles"
  let ?c2 = "Date 2024 3 10 9 0 0 0 LosAngeles"
  have h1: "DeliveryHour twoDaysAtNine \<noteq> NilDeliveryHour"
    and v1: "sint (DeliveryHour twoDaysAtNine) = 9"
    and u1: "Unit twoDaysAtNine = OffsetDay"
    and l1: "0 \<le> sint (DeliveryHour twoDaysAtNine)" "sint (DeliveryHour twoDaysAtNine) \<le> 23"
    and m1: "Unit twoDaysAtNine \<in> {OffsetMinute, OffsetHour, OffsetDay, OffsetWeek}"
    and p1: "offsetApplied twoDaysAtNine (roundedStart UTC ?s1) = Inr ?p1"
    and r1: "representable ?p1"
    and d1: "dateResolves UTC (wallAtHour ?p1 (sint (DeliveryHour twoDaysAtNine)))"
    and c1: "scheduledInstant twoDaysAtNine UTC ?s1 = Inr ?c1"
    and nb1: "\<not> Before ?c1 ?now"
    by code_simp+
  from C9_delivery_hour [OF h1 l1 m1 p1 r1 d1, where now = ?now] c1 nb1
  have f1: "ScheduleForTime twoDaysAtNine UTC ?now ?s1 = Inr (Some ?c1)"
    by auto
  have h2: "DeliveryHour dayLaterAtNine \<noteq> NilDeliveryHour"
    and v2: "sint (DeliveryHour dayLaterAtNine) = 9"
    and u2: "Unit dayLaterAtNine = OffsetDay"
    and l2: "0 \<le> sint (DeliveryHour dayLaterAtNine)" "sint (DeliveryHour dayLaterAtNine) \<le> 23"
    and m2: "Unit dayLaterAtNine \<in> {OffsetMinute, OffsetHour, OffsetDay, OffsetWeek}"
    and p2: "offsetApplied dayLaterAtNine (roundedStart LosAngeles ?s2) = Inr ?p2"
    and r2: "representable ?p2"
    and d2: "dateResolves LosAngeles (wallAtHour ?p2 (sint (DeliveryHour dayLaterAtNine)))"
    and c2: "scheduledInstant dayLaterAtNine LosAngeles ?s2 = Inr ?c2"
    and nb2: "\<not> Before ?c2 ?now"
    by code_simp+
  from C9_delivery_hour [OF h2 l2 m2 p2 r2 d2, where now = ?now] c2 nb2
  have f2: "ScheduleForTime dayLaterAtNine LosAngeles ?now ?s2 = Inr (Some ?c2)"
    and hc: "Hour ?c2 = 9" and dc: "Day ?c2 = Day ?p2"
    using v2 by auto
  have "Day ?p2 = 10" by code_simp
  with dc have dc': "Day ?c2 = 10" by simp
  from d2 v2 have d2': "dateResolves LosAngeles (wallAtHour ?p2 9)" by simp
  from h1 v1 u1 p1 f1 h2 v2 u2 p2 d2' f2 hc dc' show ?thesis
    by simp
qed

text \<open>
  The claim C9 as stated fails, in three ways. The delivery hour 24 is not the sentinel,
  and \<open>time.Date\<close> carries it over into the next day, so the result is 00:00 on
  2024-01-04 where the offset had led to 2024-01-03. In America/Los_Angeles the wall
  clock never shows 02:00 on 2024-03-10, which the change to summer time skips: with
  the delivery hour 2 the result is 01:00 on that day. And when the offset leads to the
  last day but one that \<open>time.Time\<close> can hold, a day in the year 292277024627, the
  delivery hour 23 takes the seconds of the result since the internal epoch beyond
  \<open>int64\<close>: the result wraps around into the past and the function returns no fire.
\<close>

theorem C9_counterexample:
  "DeliveryHour twoDaysAtTwentyFour \<noteq> NilDeliveryHour
   \<and> sint (DeliveryHour twoDaysAtTwentyFour) = 24
   \<and> offsetApplied twoDaysAtTwentyFour (roundedStart UTC (Date 2024 1 1 15 30 0 0 UTC))
       = Inr (Date 2024 1 3 15 30 0 0 UTC)
   \<and> ScheduleForTime twoDaysAtTwentyFour UTC (Date 2024 1 1 0 0 0 0 UTC)
         (Date 2024 1 1 15 30 0 0 UTC)
       = Inr (Some (Date 2024 1 4 0 0 0 0 UTC))
   \<and> Hour (Date 2024 1 4 0 0 0 0 UTC) = 0
   \<and> Day (Date 2024 1 4 0 0 0 0 UTC) = 4
   \<and> Day (Date 2024 1 3 15 30 0 0 UTC) = 3
   \<and> sint (DeliveryHour dayLaterAtTwo) = 2
   \<and> offsetApplied dayLaterAtTwo (roundedStart LosAngeles (Date 2024 3 9 20 0 0 0 UTC))
       = Inr (In (Date 2024 3 10 19 0 0 0 UTC) LosAngeles)
   \<and> Day (In (Date 2024 3 10 19 0 0 0 UTC) LosAngeles) = 10
   \<and> ScheduleForTime dayLaterAtTwo LosAngeles (Date 2024 1 1 0 0 0 0 UTC)
         (Date 2024 3 9 20 0 0 0 UTC)
       = Inr (Some (In (Date 2024 3 10 9 0 0 0 UTC) LosAngeles))
   \<and> Day (In (Date 2024 3 10 9 0 0 0 UTC) LosAngeles) = 10
   \<and> Hour (In (Date 2024 3 10 9 0 0 0 UTC) LosAngeles) = 1
   \<and> sint (DeliveryHour lastDayAtTwentyThree) = 23
   \<and> offsetApplied lastDayAtTwentyThree (roundedStart UTC (Date 2024 6 1 10 0 0 0 UTC))
       = Inr (Time 9223371974719159200000000000 UTC)
   \<and> representable (Time 9223371974719159200000000000 UTC)
   \<and> Year (Time 9223371974719159200000000000 UTC) = 292277024627
   \<and> scheduledInstant lastDayAtTwentyThree UTC (Date 2024 6 1 10 0 0 0 UTC)
       = Inr (Time (- 9223372098990345616000000000) UTC)
   \<and> ScheduleForTime lastDayAtTwentyThree UTC (Date 2024 1 1 0 0 0 0 UTC)
         (Date 2024 6 1 10 0 0 0 UTC) = Inr None"
  by code_simp

end
